theory Spec2Isabelle
  imports Main "HOL-Library.Word"
begin

unbundle bit_operations_syntax

section \<open>Token kinds\<close>

text \<open>
  The enumeration \<open>TokenType\<close> of \<open>scanner.c\<close>, in the order of the source. The
  valid-token bitmap of a call is a predicate on it.
\<close>

datatype (plugins only: code) TokenType =
    START_BLOCK | END_BLOCK | NEWLINE
  | UPPER_ID | LOWER_ID | LABEL
  | INT_LITERAL | CHAR_LITERAL
  | BEGIN_STR | END_STR | STRING_CONTENT | BEGIN_INTERPOLATION | END_INTERPOLATION
  | BLOCK_COMMENT | LINE_COMMENT
  | LPAREN | RPAREN | LBRACKET | RBRACKET | LBRACE | RBRACE | BACKSLASH_LPAREN
  | COLON | COMMA | DOT | DOTDOT | EQ | UNDERSCORE | SLASH | SEMICOLON
  | PLUS | MINUS | STAR | EQEQ | NEQ | LT | GT | LTEQ | GTEQ | LSHIFT | RSHIFT
  | AMP | AMPAMP | PIPE | TILDE | EXCLAMATION | PERCENT | CARET
  | PLUSEQ | MINUSEQ | STAREQ | CARETEQ
  | KW_AND | KW_AS | KW_BREAK | KW_CONTINUE | KW_DO | KW_ELIF | KW_ELSE | KW_FN
  | KW_UPPER_FN | KW_FOR | KW_IF | KW_IMPL | KW_IMPORT | KW_IN | KW_IS | KW_LET
  | KW_LOOP | KW_MATCH | KW_NOT | KW_OR | KW_PRIM | KW_RETURN | KW_TRAIT | KW_TYPE
  | KW_VALUE | KW_WHILE | KW_ROW
  | TOKEN_COUNT

type_synonym valid_symbols = "TokenType \<Rightarrow> bool"

section \<open>Frames and scanner state\<close>

text \<open>
  \<open>FrameKind\<close> is a C enumeration that \<open>serialize\<close> narrows to one byte and
  \<open>deserialize\<close> reads back from one byte without a range check. The program only
  compares a kind with the four enumerators and narrows it to a byte, so the byte is all
  that is observable of it: a kind is modelled as that byte, with the four enumerators as
  its named values. The scanner itself stores nothing but the four enumerators.
\<close>

type_synonym FrameKind = "8 word"

definition FRAME_INDENTED :: FrameKind where "FRAME_INDENTED = 0"
definition FRAME_PAREN :: FrameKind where "FRAME_PAREN = 1"
definition FRAME_BRACKET :: FrameKind where "FRAME_BRACKET = 2"
definition FRAME_INTERPOLATION :: FrameKind where "FRAME_INTERPOLATION = 3"

lemmas FrameKind_defs =
  FRAME_INDENTED_def FRAME_PAREN_def FRAME_BRACKET_def FRAME_INTERPOLATION_def

record Frame =
  kind :: FrameKind
  block_col :: "16 word"

definition MAX_DEPTH :: nat where "MAX_DEPTH = 128"

text \<open>
  \<open>stack\<close> is the C array \<open>Frame stack[MAX_DEPTH]\<close>: a list that the invariant
  \<open>scanner_wf\<close> below keeps at length \<open>MAX_DEPTH\<close>. \<open>depth\<close> and
  \<open>pending_end_blocks\<close> are \<open>uint8_t\<close>.
\<close>

record Scanner =
  stack :: "Frame list"
  depth :: "8 word"
  pending_end_blocks :: "8 word"
  in_string :: bool
  eof_newline_emitted :: bool

text \<open>
  The invariants the source and the specification state for a call boundary: the array
  has its \<open>MAX_DEPTH\<close> slots, \<open>1 \<le> depth \<le> MAX_DEPTH\<close>, and slot 0 is the
  sentinel \<open>INDENTED\<close> frame of column 0. Outside of them the C code reads or writes
  beyond the array (undefined behaviour), which the total functions below do not show.
\<close>

definition scanner_wf :: "Scanner \<Rightarrow> bool" where
  "scanner_wf s \<longleftrightarrow>
     length (stack s) = MAX_DEPTH \<and> 1 \<le> unat (depth s) \<and> unat (depth s) \<le> MAX_DEPTH \<and>
     kind (stack s ! 0) = FRAME_INDENTED \<and> block_col (stack s ! 0) = 0"

section \<open>The lexer handle\<close>

text \<open>
  Modelled from the spec: the host's lexer handle (\<open>TSLexer\<close> of
  \<open>tree_sitter/parser.h\<close>, which is not among the sources). \<open>lookahead\<close> is the next
  code point without consuming it, and 0 at the end of the input; \<open>advance\<close> consumes one
  code point and, when \<open>skip\<close> is set, drops it from the extent of the current token;
  \<open>mark_end\<close> sets the end of the current token to the current position;
  \<open>get_column\<close> is the zero-based column of \<open>lookahead\<close> on its line; \<open>eof\<close> holds
  at the end of the input. The handle is the remaining input \<open>rest\<close>, the column, the
  number of code points consumed, the start and the marked end of the current token, and
  \<open>result_symbol\<close>. Advancing at the end of the input leaves the handle as it is.
\<close>

record TSLexer =
  rest :: "int list"
  column :: "32 word"
  position :: nat
  token_start :: nat
  token_end :: "nat option"
  result_symbol :: TokenType

abbreviation ch :: "char \<Rightarrow> int" where
  "ch \<equiv> of_char"

definition lookahead :: "TSLexer \<Rightarrow> int" where
  "lookahead lx = (case rest lx of [] \<Rightarrow> 0 | c # _ \<Rightarrow> c)"

definition eof :: "TSLexer \<Rightarrow> bool" where
  "eof lx \<longleftrightarrow> rest lx = []"

definition lexer_advance :: "bool \<Rightarrow> TSLexer \<Rightarrow> TSLexer" where
  "lexer_advance skp lx =
     (case rest lx of
        [] \<Rightarrow> lx
      | c # cs \<Rightarrow>
          lx\<lparr>rest := cs,
             column := (if c = ch CHR 0x0A then 0 else column lx + 1),
             position := position lx + 1,
             token_start := (if skp then position lx + 1 else token_start lx)\<rparr>)"

definition mark_end :: "TSLexer \<Rightarrow> TSLexer" where
  "mark_end lx = lx\<lparr>token_end := Some (position lx)\<rparr>"

definition get_column :: "TSLexer \<Rightarrow> 32 word" where
  "get_column lx = column lx"

definition emit :: "TokenType \<Rightarrow> TSLexer \<Rightarrow> TSLexer" where
  \<comment> \<open>\<open>lexer->result_symbol = tok\<close>\<close>
  "emit tok lx = lx\<lparr>result_symbol := tok\<rparr>"

text \<open>
  Modelled from the spec: the extent of the token that a successful call hands back, from
  the token start to the marked end, or to the current position when \<open>mark_end\<close> was
  not called.
\<close>

definition token_extent :: "TSLexer \<Rightarrow> nat \<times> nat" where
  "token_extent lx =
     (token_start lx, (case token_end lx of None \<Rightarrow> position lx | Some e \<Rightarrow> e))"

text \<open>
  Modelled from the spec: the handle as the host passes it at a token request, at the
  start of the given input and at the given column, with no end marked.
\<close>

definition lexer_at :: "int list \<Rightarrow> 32 word \<Rightarrow> TSLexer" where
  "lexer_at inp col =
     \<lparr>rest = inp, column = col, position = 0, token_start = 0, token_end = None,
      result_symbol = START_BLOCK\<rparr>"

section \<open>Helpers\<close>

definition is_upper :: "int \<Rightarrow> bool" where
  "is_upper c \<longleftrightarrow> ch CHR ''A'' \<le> c \<and> c \<le> ch CHR ''Z''"

definition is_lower :: "int \<Rightarrow> bool" where
  "is_lower c \<longleftrightarrow> ch CHR ''a'' \<le> c \<and> c \<le> ch CHR ''z''"

definition is_digit :: "int \<Rightarrow> bool" where
  "is_digit c \<longleftrightarrow> ch CHR ''0'' \<le> c \<and> c \<le> ch CHR ''9''"

definition is_alnum :: "int \<Rightarrow> bool" where
  "is_alnum c \<longleftrightarrow> is_upper c \<or> is_lower c \<or> is_digit c"

definition is_id_char :: "int \<Rightarrow> bool" where
  "is_id_char c \<longleftrightarrow> is_alnum c \<or> c = ch CHR ''_''"

definition is_hex :: "int \<Rightarrow> bool" where
  "is_hex c \<longleftrightarrow>
     is_digit c \<or> (ch CHR ''a'' \<le> c \<and> c \<le> ch CHR ''f'') \<or> (ch CHR ''A'' \<le> c \<and> c \<le> ch CHR ''F'')"

definition is_bin :: "int \<Rightarrow> bool" where
  "is_bin c \<longleftrightarrow> c = ch CHR ''0'' \<or> c = ch CHR ''1''"

text \<open>The two whitespace tests the source writes out at each use.\<close>

definition is_hspace :: "int \<Rightarrow> bool" where
  "is_hspace c \<longleftrightarrow> c = ch CHR '' '' \<or> c = ch CHR 0x09"

definition is_newline :: "int \<Rightarrow> bool" where
  "is_newline c \<longleftrightarrow> c = ch CHR 0x0A \<or> c = ch CHR 0x0D"

lemmas char_class_defs =
  is_upper_def is_lower_def is_digit_def is_alnum_def is_id_char_def is_hex_def is_bin_def
  is_hspace_def is_newline_def

definition top_frame :: "Scanner \<Rightarrow> Frame" where
  "top_frame s = stack s ! (unat (depth s) - 1)"

definition push_frame :: "Scanner \<Rightarrow> FrameKind \<Rightarrow> 16 word \<Rightarrow> Scanner" where
  "push_frame s k col =
     (if unat (depth s) < MAX_DEPTH
      then s\<lparr>stack := (stack s)[unat (depth s) := \<lparr>kind = k, block_col = col\<rparr>],
             depth := depth s + 1\<rparr>
      else s)"

definition pop_frame :: "Scanner \<Rightarrow> Scanner" where
  "pop_frame s = (if 1 < depth s then s\<lparr>depth := depth s - 1\<rparr> else s)"

definition in_non_indented :: "Scanner \<Rightarrow> bool" where
  "in_non_indented s \<longleftrightarrow> kind (top_frame s) \<noteq> FRAME_INDENTED"

text \<open>
  The loop \<open>for (int i = depth - 1; i >= 0; i--)\<close> of
  \<open>indented_frames_above_delimiter\<close>; the first argument is \<open>i + 1\<close>.
\<close>

fun count_indented :: "nat \<Rightarrow> Frame list \<Rightarrow> 8 word \<Rightarrow> 8 word" where
  "count_indented 0 st count = count"
| "count_indented (Suc i) st count =
     (if kind (st ! i) = FRAME_INDENTED then count_indented i st (count + 1) else count)"

definition indented_frames_above_delimiter :: "Scanner \<Rightarrow> 8 word" where
  "indented_frames_above_delimiter s = count_indented (unat (depth s)) (stack s) 0"

definition advance :: "TSLexer \<Rightarrow> TSLexer" where
  "advance lx = lexer_advance False lx"

definition skip :: "TSLexer \<Rightarrow> TSLexer" where
  "skip lx = lexer_advance True lx"

text \<open>
  The loops of the form \<open>while (P(lexer->lookahead)) advance(lexer);\<close> (or \<open>skip\<close>).
  The end-of-input test only makes the recursion well-founded: every test \<open>P\<close> the source
  uses rejects the code point 0 that the handle shows there (\<open>advance_while_unfold\<close>).
\<close>

function advance_while :: "(int \<Rightarrow> bool) \<Rightarrow> bool \<Rightarrow> TSLexer \<Rightarrow> TSLexer" where
  "advance_while P skp lx =
     (if P (lookahead lx) \<and> \<not> eof lx then advance_while P skp (lexer_advance skp lx) else lx)"
  by pat_completeness auto
termination
  by (relation "measure (\<lambda>(P, skp, lx). length (rest lx))")
     (auto simp: eof_def lexer_advance_def split: list.splits)

declare advance_while.simps [simp del]

definition skip_horizontal_ws :: "TSLexer \<Rightarrow> TSLexer" where
  "skip_horizontal_ws lx = advance_while is_hspace True lx"

definition skip_all_ws :: "TSLexer \<Rightarrow> TSLexer" where
  "skip_all_ws lx = advance_while (\<lambda>c. is_hspace c \<or> is_newline c) True lx"

lemma rest_lexer_advance_le: "length (rest (lexer_advance skp lx)) \<le> length (rest lx)"
  by (simp add: lexer_advance_def split: list.splits)

lemma rest_lexer_advance_less:
  "lookahead lx \<noteq> 0 \<Longrightarrow> length (rest (lexer_advance skp lx)) < length (rest lx)"
  by (simp add: lexer_advance_def lookahead_def split: list.splits)

lemma rest_advance_while_le: "length (rest (advance_while P skp lx)) \<le> length (rest lx)"
proof (induction P skp lx rule: advance_while.induct)
  case (1 P skp lx)
  show ?case
  proof (cases "P (lookahead lx) \<and> \<not> eof lx")
    case True
    with 1 have "length (rest (advance_while P skp (lexer_advance skp lx)))
        \<le> length (rest (lexer_advance skp lx))"
      by simp
    also have "\<dots> \<le> length (rest lx)"
      by (rule rest_lexer_advance_le)
    finally show ?thesis
      using True by (subst advance_while.simps) simp
  next
    case False
    then show ?thesis
      by (subst advance_while.simps) auto
  qed
qed

lemma rest_skip_horizontal_ws_le: "length (rest (skip_horizontal_ws lx)) \<le> length (rest lx)"
  by (simp add: skip_horizontal_ws_def rest_advance_while_le)

lemma rest_skip_horizontal_ws_less:
  "is_hspace (lookahead lx) \<Longrightarrow> length (rest (skip_horizontal_ws lx)) < length (rest lx)"
proof -
  assume h: "is_hspace (lookahead lx)"
  then have nz: "lookahead lx \<noteq> 0"
    by (auto simp: is_hspace_def)
  then have ne: "\<not> eof lx"
    by (auto simp: eof_def lookahead_def)
  have "length (rest (advance_while is_hspace True (lexer_advance True lx)))
      \<le> length (rest (lexer_advance True lx))"
    by (rule rest_advance_while_le)
  also have "\<dots> < length (rest lx)"
    using nz by (rule rest_lexer_advance_less)
  finally show ?thesis
    using h ne by (simp add: skip_horizontal_ws_def advance_while.simps [of is_hspace True lx])
qed

text \<open>\<open>skip_blank_lines\<close>: newlines and lines of spaces and tabs only.\<close>

function skip_blank_lines :: "TSLexer \<Rightarrow> TSLexer" where
  "skip_blank_lines lx =
     (if is_newline (lookahead lx) then skip_blank_lines (skip lx)
      else if is_hspace (lookahead lx) then
        (let lx' = skip_horizontal_ws lx
         in if is_newline (lookahead lx') then skip_blank_lines lx' else lx')
      else lx)"
  by pat_completeness auto
termination
  by (relation "measure (\<lambda>lx. length (rest lx))")
     (auto simp: skip_def is_newline_def rest_skip_horizontal_ws_less
           intro!: rest_lexer_advance_less)

declare skip_blank_lines.simps [simp del]

section \<open>Keyword matching\<close>

definition keywords_table :: "(string \<times> TokenType) list" where
  "keywords_table =
     [(''and'', KW_AND), (''as'', KW_AS), (''break'', KW_BREAK), (''continue'', KW_CONTINUE),
      (''do'', KW_DO), (''elif'', KW_ELIF), (''else'', KW_ELSE), (''fn'', KW_FN),
      (''for'', KW_FOR), (''if'', KW_IF), (''impl'', KW_IMPL), (''import'', KW_IMPORT),
      (''in'', KW_IN), (''is'', KW_IS), (''let'', KW_LET), (''loop'', KW_LOOP),
      (''match'', KW_MATCH), (''not'', KW_NOT), (''or'', KW_OR), (''prim'', KW_PRIM),
      (''return'', KW_RETURN), (''row'', KW_ROW), (''trait'', KW_TRAIT), (''type'', KW_TYPE),
      (''value'', KW_VALUE), (''while'', KW_WHILE)]"

text \<open>
  \<open>lookup_keyword\<close>: the first entry of the table whose text has the length of the word
  and the same characters (\<open>strlen\<close> and \<open>strncmp\<close>), \<open>LOWER_ID\<close> when there is none.
\<close>

fun lookup_in :: "(string \<times> TokenType) list \<Rightarrow> int list \<Rightarrow> TokenType" where
  "lookup_in [] word = LOWER_ID"
| "lookup_in ((text, token) # kws) word =
     (if length text = length word \<and> map ch text = word then token else lookup_in kws word)"

definition lookup_keyword :: "int list \<Rightarrow> TokenType" where
  "lookup_keyword word = lookup_in keywords_table word"

section \<open>Token scanning functions\<close>

text \<open>
  The static function \<open>scan_char_literal\<close> of the source is never called and is left
  out.
\<close>

text \<open>
  The buffer \<open>char word[64]\<close> with its fill count \<open>len\<close> is the list of the characters
  stored so far. Every character stored has passed an ASCII test, so the narrowing to
  \<open>char\<close> changes nothing. The two loops below stop at \<open>len = 63\<close>, as the source's do.
\<close>

function consume_underscores :: "int list \<Rightarrow> TSLexer \<Rightarrow> int list \<times> TSLexer" where
  "consume_underscores word lx =
     (if lookahead lx = ch CHR ''_'' \<and> length word < 63
      then consume_underscores (word @ [lookahead lx]) (advance lx)
      else (word, lx))"
  by pat_completeness auto
termination
  by (relation "measure (\<lambda>(word, lx). length (rest lx))")
     (auto simp: advance_def intro!: rest_lexer_advance_less)

declare consume_underscores.simps [simp del]

function consume_id_chars :: "int list \<Rightarrow> TSLexer \<Rightarrow> int list \<times> TSLexer" where
  "consume_id_chars word lx =
     (if is_id_char (lookahead lx) \<and> length word < 63
      then consume_id_chars (word @ [lookahead lx]) (advance lx)
      else (word, lx))"
  by pat_completeness auto
termination
  by (relation "measure (\<lambda>(word, lx). length (rest lx))")
     (auto simp: advance_def char_class_defs intro!: rest_lexer_advance_less)

declare consume_id_chars.simps [simp del]

definition scan_upper_id :: "TSLexer \<Rightarrow> valid_symbols \<Rightarrow> TokenType \<times> TSLexer" where
  "scan_upper_id lx valid =
     (case consume_underscores [] lx of (word0, lx0) \<Rightarrow>
        if \<not> is_upper (lookahead lx0) then (TOKEN_COUNT, lx0)
        else
          (case consume_id_chars (word0 @ [lookahead lx0]) (advance lx0) of (word, lx1) \<Rightarrow>
             let lx2 = mark_end lx1
             in if length word = 2 \<and> word ! 0 = ch CHR ''F'' \<and> word ! 1 = ch CHR ''n''
                   \<and> valid KW_UPPER_FN
                then (KW_UPPER_FN, lx2)
                else (UPPER_ID, lx2)))"

definition scan_lower_id_or_keyword :: "TSLexer \<Rightarrow> valid_symbols \<Rightarrow> TokenType \<times> TSLexer" where
  "scan_lower_id_or_keyword lx valid =
     (case consume_underscores [] lx of (word0, lx0) \<Rightarrow>
        if \<not> is_lower (lookahead lx0) then (TOKEN_COUNT, lx0)
        else
          (case consume_id_chars (word0 @ [lookahead lx0]) (advance lx0) of (word, lx1) \<Rightarrow>
             let lx2 = mark_end lx1; kw = lookup_keyword word
             in if kw \<noteq> LOWER_ID \<and> valid kw then (kw, lx2) else (LOWER_ID, lx2)))"

definition scan_int_literal :: "TSLexer \<Rightarrow> bool \<times> TSLexer" where
  "scan_int_literal lx =
     (if \<not> is_digit (lookahead lx) then (False, lx)
      else if lookahead lx = ch CHR ''0'' then
        (let lx1 = advance lx in
         if lookahead lx1 = ch CHR ''x'' \<or> lookahead lx1 = ch CHR ''X'' then
           (let lx2 = advance lx1 in
            if \<not> is_hex (lookahead lx2) \<and> lookahead lx2 \<noteq> ch CHR ''_'' then (False, lx2)
            else (True, advance_while (\<lambda>c. is_hex c \<or> c = ch CHR ''_'') False lx2))
         else if lookahead lx1 = ch CHR ''b'' \<or> lookahead lx1 = ch CHR ''B'' then
           (let lx2 = advance lx1 in
            if \<not> is_bin (lookahead lx2) \<and> lookahead lx2 \<noteq> ch CHR ''_'' then (False, lx2)
            else (True, advance_while (\<lambda>c. is_bin c \<or> c = ch CHR ''_'') False lx2))
         else (True, advance_while (\<lambda>c. is_digit c \<or> c = ch CHR ''_'') False lx1))
      else (True, advance_while (\<lambda>c. is_digit c \<or> c = ch CHR ''_'') False lx))"

text \<open>
  \<open>scan_string_content\<close>; the first argument is the local \<open>has_content\<close>.
\<close>

function scan_string_content :: "bool \<Rightarrow> TSLexer \<Rightarrow> bool \<times> TSLexer" where
  "scan_string_content has_content lx =
     (if lookahead lx = ch CHR 0x22 \<or> lookahead lx = ch CHR 0x60 \<or> lookahead lx = 0
      then (has_content, lx)
      else if lookahead lx = ch CHR 0x5C then
        (let lx1 = advance lx in
         if lookahead lx1 = ch CHR 0x0A then
           scan_string_content True
             (advance_while (\<lambda>c. is_hspace c \<or> is_newline c) False (advance lx1))
         else if lookahead lx1 \<noteq> 0 then scan_string_content True (advance lx1)
         else scan_string_content True lx1)
      else scan_string_content True (advance lx))"
  by pat_completeness auto
termination
proof (relation "measure (\<lambda>(has_content, lx). length (rest lx))", goal_cases)
  case 1
  show ?case by simp
next
  case (2 has_content lx lx1)
  then have "length (rest lx1) < length (rest lx)"
    by (simp add: advance_def rest_lexer_advance_less)
  moreover have "length (rest (advance_while (\<lambda>c. is_hspace c \<or> is_newline c) False (advance lx1)))
      \<le> length (rest lx1)"
    by (metis advance_def le_trans rest_advance_while_le rest_lexer_advance_le)
  ultimately show ?case by simp
next
  case (3 has_content lx lx1)
  then have "length (rest lx1) < length (rest lx)"
    by (simp add: advance_def rest_lexer_advance_less)
  moreover have "length (rest (advance lx1)) \<le> length (rest lx1)"
    by (simp add: advance_def rest_lexer_advance_le)
  ultimately show ?case by simp
next
  case (4 has_content lx lx1)
  then show ?case
    by (simp add: advance_def rest_lexer_advance_less)
next
  case (5 has_content lx)
  then show ?case
    by (simp add: advance_def rest_lexer_advance_less)
qed

declare scan_string_content.simps [simp del]

text \<open>
  The loop of the block comment, \<open>while (depth > 0 && lexer->lookahead != 0)\<close>. The
  nesting counter is an \<open>int\<close> in the source; it is a natural number here, which differs
  only past \<open>2^31\<close> nested openers.
\<close>

function block_comment_loop :: "nat \<Rightarrow> TSLexer \<Rightarrow> TSLexer" where
  "block_comment_loop d lx =
     (if 0 < d \<and> lookahead lx \<noteq> 0 then
        (if lookahead lx = ch CHR ''#'' then
           (let lx1 = advance lx in
            if lookahead lx1 = ch CHR ''|'' then block_comment_loop (d + 1) (advance lx1)
            else block_comment_loop d lx1)
         else if lookahead lx = ch CHR ''|'' then
           (let lx1 = advance lx in
            if lookahead lx1 = ch CHR ''#'' then block_comment_loop (d - 1) (advance lx1)
            else block_comment_loop d lx1)
         else block_comment_loop d (advance lx))
      else lx)"
  by pat_completeness auto
termination
proof (relation "measure (\<lambda>(d, lx). length (rest lx))", goal_cases)
  case 1
  show ?case by simp
next
  case (2 d lx lx1)
  then have "length (rest lx1) < length (rest lx)"
    by (simp add: advance_def rest_lexer_advance_less)
  moreover have "length (rest (advance lx1)) \<le> length (rest lx1)"
    by (simp add: advance_def rest_lexer_advance_le)
  ultimately show ?case by simp
next
  case (3 d lx lx1)
  then show ?case
    by (simp add: advance_def rest_lexer_advance_less)
next
  case (4 d lx lx1)
  then have "length (rest lx1) < length (rest lx)"
    by (simp add: advance_def rest_lexer_advance_less)
  moreover have "length (rest (advance lx1)) \<le> length (rest lx1)"
    by (simp add: advance_def rest_lexer_advance_le)
  ultimately show ?case by simp
next
  case (5 d lx lx1)
  then show ?case
    by (simp add: advance_def rest_lexer_advance_less)
next
  case (6 d lx)
  then show ?case
    by (simp add: advance_def rest_lexer_advance_less)
qed

declare block_comment_loop.simps [simp del]

section \<open>The main scan function\<close>

text \<open>
  A call returns \<open>true\<close> or \<open>false\<close> and leaves the scanner state and the handle
  changed: the result of the model is the triple of the three. A step of the layout part
  either returns from the call or falls through to the code below it with the handle it
  has reached.
\<close>

type_synonym scan_result = "bool \<times> Scanner \<times> TSLexer"

datatype phase = Return bool Scanner TSLexer | Fallthrough TSLexer

definition then_phase :: "phase \<Rightarrow> (TSLexer \<Rightarrow> phase) \<Rightarrow> phase" where
  "then_phase p f = (case p of Return b s lx \<Rightarrow> Return b s lx | Fallthrough lx \<Rightarrow> f lx)"

text \<open>The end-of-input rule, which the source writes out twice.\<close>

definition eof_rule :: "Scanner \<Rightarrow> TSLexer \<Rightarrow> valid_symbols \<Rightarrow> scan_result" where
  "eof_rule s lx valid =
     (if valid NEWLINE \<and> \<not> eof_newline_emitted s
      then (True, s\<lparr>eof_newline_emitted := True\<rparr>, emit NEWLINE lx)
      else if valid END_BLOCK \<and> kind (top_frame s) = FRAME_INDENTED \<and> 1 < depth s
      then (True, pop_frame s, emit END_BLOCK lx)
      else (False, s, lx))"

subsection \<open>String mode\<close>

definition scan_string_mode :: "Scanner \<Rightarrow> TSLexer \<Rightarrow> valid_symbols \<Rightarrow> scan_result" where
  "scan_string_mode s lx valid =
     (if valid STRING_CONTENT \<and> lookahead lx \<noteq> ch CHR 0x22 \<and> lookahead lx \<noteq> ch CHR 0x60
         \<and> lookahead lx \<noteq> 0
      then (case scan_string_content False (emit STRING_CONTENT lx) of (b, lx') \<Rightarrow> (b, s, lx'))
      else if valid END_STR \<and> lookahead lx = ch CHR 0x22
      then (True, s\<lparr>in_string := False\<rparr>, emit END_STR (advance lx))
      else if valid BEGIN_INTERPOLATION \<and> lookahead lx = ch CHR 0x60
      then (True, push_frame (s\<lparr>in_string := False\<rparr>) FRAME_INTERPOLATION 0,
            emit BEGIN_INTERPOLATION (advance lx))
      else (False, s, lx))"

subsection \<open>Whitespace and layout, top frame not indented\<close>

text \<open>The loop \<open>while (newline) { skip(lexer); skip_horizontal_ws(lexer); }\<close>.\<close>

function skip_newline_runs :: "TSLexer \<Rightarrow> TSLexer" where
  "skip_newline_runs lx =
     (if is_newline (lookahead lx) then skip_newline_runs (skip_horizontal_ws (skip lx)) else lx)"
  by pat_completeness auto
termination
proof (relation "measure (\<lambda>lx. length (rest lx))", goal_cases)
  case 1
  show ?case by simp
next
  case (2 lx)
  then have "length (rest (skip lx)) < length (rest lx)"
    by (auto simp: skip_def is_newline_def intro!: rest_lexer_advance_less)
  moreover have "length (rest (skip_horizontal_ws (skip lx))) \<le> length (rest (skip lx))"
    by (rule rest_skip_horizontal_ws_le)
  ultimately show ?case by simp
qed

declare skip_newline_runs.simps [simp del]

definition layout_non_indented :: "Scanner \<Rightarrow> TSLexer \<Rightarrow> valid_symbols \<Rightarrow> phase" where
  "layout_non_indented s lx valid =
     (let lx0 = skip_horizontal_ws lx in
      if valid NEWLINE \<and> is_newline (lookahead lx0)
      then Return True s (emit NEWLINE (skip_newline_runs lx0))
      else
        (let lx1 = skip_all_ws lx0 in
         if valid START_BLOCK \<and> lookahead lx1 \<noteq> ch CHR ''#''
         then Return True (push_frame s FRAME_INDENTED (ucast (get_column lx1)))
                (emit START_BLOCK lx1)
         else Fallthrough lx1))"

subsection \<open>Whitespace and layout, top frame indented\<close>

text \<open>
  The loop that crosses newlines; the first argument and the first component of the
  result are the local \<open>at_newline\<close>.
\<close>

function skip_newlines :: "bool \<Rightarrow> TSLexer \<Rightarrow> bool \<times> TSLexer" where
  "skip_newlines at_newline lx =
     (if is_newline (lookahead lx) then
        (let lx' = skip_horizontal_ws (skip lx)
         in if is_newline (lookahead lx') then skip_newlines True lx' else (True, lx'))
      else (at_newline, lx))"
  by pat_completeness auto
termination
proof (relation "measure (\<lambda>(at_newline, lx). length (rest lx))", goal_cases)
  case 1
  show ?case by simp
next
  case (2 at_newline lx lx')
  then have "length (rest (skip lx)) < length (rest lx)"
    by (auto simp: skip_def is_newline_def intro!: rest_lexer_advance_less)
  moreover have "length (rest (skip_horizontal_ws (skip lx))) \<le> length (rest (skip lx))"
    by (rule rest_skip_horizontal_ws_le)
  ultimately show ?case using 2 by simp
qed

declare skip_newlines.simps [simp del]

definition layout_skip :: "TSLexer \<Rightarrow> bool \<times> TSLexer" where
  "layout_skip lx = skip_newlines False (skip_horizontal_ws lx)"

definition open_block :: "Scanner \<Rightarrow> TSLexer \<Rightarrow> phase" where
  \<comment> \<open>the three copies of \<open>get_column; push_frame; result_symbol = START_BLOCK; return true\<close>\<close>
  "open_block s lx =
     Return True (push_frame s FRAME_INDENTED (ucast (get_column lx))) (emit START_BLOCK lx)"

definition start_block :: "Scanner \<Rightarrow> TSLexer \<Rightarrow> bool \<Rightarrow> valid_symbols \<Rightarrow> phase" where
  "start_block s lx at_newline valid =
     (if valid START_BLOCK then
        then_phase
          (if \<not> at_newline then
             (if is_newline (lookahead lx) then Fallthrough (skip_blank_lines lx)
              else if lookahead lx \<noteq> ch CHR ''#'' then open_block s lx
              else Fallthrough lx)
           else Fallthrough lx)
          (\<lambda>lx1. if lookahead lx1 \<noteq> ch CHR ''#'' then open_block s lx1 else Fallthrough lx1)
      else Fallthrough lx)"

definition is_closer :: "int \<Rightarrow> bool" where
  "is_closer c \<longleftrightarrow> c = ch CHR '')'' \<or> c = ch CHR '']'' \<or> c = ch CHR '','' \<or> c = ch CHR ''}''"

definition auto_close :: "Scanner \<Rightarrow> TSLexer \<Rightarrow> valid_symbols \<Rightarrow> phase" where
  "auto_close s lx valid =
     (if is_closer (lookahead lx) then
        (if valid NEWLINE then
           (let count = indented_frames_above_delimiter s
            in Return True (if 0 < count then s\<lparr>pending_end_blocks := count\<rparr> else s)
                 (emit NEWLINE lx))
         else if valid END_BLOCK \<and> kind (top_frame s) = FRAME_INDENTED \<and> 1 < depth s
         then Return True (pop_frame s) (emit END_BLOCK lx)
         else Fallthrough lx)
      else Fallthrough lx)"

text \<open>
  The loop \<open>for (int i = depth - 1; i >= 1; i--)\<close> of the dedent; the first argument
  is \<open>i\<close>.
\<close>

fun count_dedent :: "nat \<Rightarrow> Frame list \<Rightarrow> 32 word \<Rightarrow> 8 word \<Rightarrow> 8 word" where
  "count_dedent 0 st col dedent_count = dedent_count"
| "count_dedent (Suc i) st col dedent_count =
     (if kind (st ! Suc i) = FRAME_INDENTED \<and> col < ucast (block_col (st ! Suc i))
      then count_dedent i st col (dedent_count + 1)
      else dedent_count)"

definition indentation_check :: "Scanner \<Rightarrow> TSLexer \<Rightarrow> valid_symbols \<Rightarrow> phase" where
  "indentation_check s lx valid =
     (let col = get_column lx; frame = top_frame s in
      if col < ucast (block_col frame) then
        (let counted = count_dedent (unat (depth s) - 1) (stack s) col 0;
             dedent_count = (if counted = 0 then 1 else counted)
         in if valid NEWLINE
            then Return True (s\<lparr>pending_end_blocks := dedent_count\<rparr>) (emit NEWLINE lx)
            else if valid END_BLOCK
            then Return True (pop_frame (s\<lparr>pending_end_blocks := dedent_count - 1\<rparr>))
                   (emit END_BLOCK lx)
            else Fallthrough lx)
      else if col = ucast (block_col frame) then
        (if valid NEWLINE then Return True s (emit NEWLINE lx) else Fallthrough lx)
      else Fallthrough lx)"

definition layout_indented :: "Scanner \<Rightarrow> TSLexer \<Rightarrow> valid_symbols \<Rightarrow> phase" where
  "layout_indented s lx valid =
     (case layout_skip lx of (at_newline, lx1) \<Rightarrow>
        if eof lx1 then (case eof_rule s lx1 valid of (b, s', lx') \<Rightarrow> Return b s' lx')
        else
          then_phase (start_block s lx1 at_newline valid) (\<lambda>lx2.
          then_phase (auto_close s lx2 valid) (\<lambda>lx3.
          if at_newline then indentation_check s lx3 valid else Fallthrough lx3)))"

subsection \<open>Concrete tokens\<close>

definition scan_comment :: "TSLexer \<Rightarrow> valid_symbols \<Rightarrow> bool \<times> TSLexer" where
  "scan_comment lx valid =
     (let lx1 = advance (mark_end lx) in
      if lookahead lx1 = ch CHR ''|'' then
        (if valid BLOCK_COMMENT
         then (True, emit BLOCK_COMMENT (mark_end (block_comment_loop 1 (advance lx1))))
         else (False, lx1))
      else
        (if valid LINE_COMMENT
         then (True, emit LINE_COMMENT
                 (mark_end (advance_while (\<lambda>c. c \<noteq> ch CHR 0x0A \<and> c \<noteq> 0) False lx1)))
         else (False, lx1)))"

definition scan_quote :: "TSLexer \<Rightarrow> valid_symbols \<Rightarrow> bool \<times> TSLexer" where
  "scan_quote lx valid =
     (let lx1 = advance lx in
      if is_lower (lookahead lx1) \<and> valid LABEL then
        (case consume_id_chars [lookahead lx1] (advance lx1) of (buf, lx2) \<Rightarrow>
           if lookahead lx2 = ch CHR 0x27 \<and> length buf = 1 \<and> valid CHAR_LITERAL
           then (True, emit CHAR_LITERAL (advance lx2))
           else (True, emit LABEL (mark_end lx2)))
      else if valid CHAR_LITERAL then
        (let lx2 = (if lookahead lx1 = ch CHR 0x5C then advance (advance lx1)
                    else if lookahead lx1 \<noteq> ch CHR 0x27 \<and> lookahead lx1 \<noteq> 0 then advance lx1
                    else lx1)
         in if lookahead lx2 = ch CHR 0x27 then (True, emit CHAR_LITERAL (advance lx2))
            else (False, lx2))
      else (False, lx1))"

definition scan_underscore :: "TSLexer \<Rightarrow> valid_symbols \<Rightarrow> bool \<times> TSLexer" where
  "scan_underscore lx valid =
     (let lx1 = mark_end (advance lx);
          lx2 = advance_while (\<lambda>c. c = ch CHR ''_'') False lx1
      in if is_upper (lookahead lx2)
         then (True, emit UPPER_ID (mark_end (advance_while is_id_char False (advance lx2))))
         else if is_lower (lookahead lx2)
         then (True, emit LOWER_ID (mark_end (advance_while is_id_char False (advance lx2))))
         else if valid UNDERSCORE then (True, emit UNDERSCORE lx2)
         else (False, lx2))"

text \<open>
  The operators of two characters: the eight blocks of the source for \<open>=\<close>, \<open>!\<close>,
  \<open>+\<close>, \<open>-\<close>, \<open>*\<close>, \<open>^\<close>, \<open>&\<close> and \<open>.\<close> differ in the second character and the
  two tokens only; the blocks for \<open><\<close> and \<open>>\<close> have a third token.
\<close>

definition two_char_op ::
  "TSLexer \<Rightarrow> valid_symbols \<Rightarrow> int \<Rightarrow> TokenType \<Rightarrow> TokenType \<Rightarrow> bool \<times> TSLexer" where
  "two_char_op lx valid second long short =
     (let lx1 = advance lx in
      if lookahead lx1 = second \<and> valid long then (True, emit long (advance lx1))
      else if valid short then (True, emit short lx1)
      else (False, lx1))"

definition angle_op ::
  "TSLexer \<Rightarrow> valid_symbols \<Rightarrow> int \<Rightarrow> TokenType \<Rightarrow> TokenType \<Rightarrow> TokenType \<Rightarrow> bool \<times> TSLexer" where
  "angle_op lx valid second shift cmp_eq cmp =
     (let lx1 = advance lx in
      if lookahead lx1 = second \<and> valid shift then (True, emit shift (advance lx1))
      else if lookahead lx1 = ch CHR ''='' \<and> valid cmp_eq then (True, emit cmp_eq (advance lx1))
      else if valid cmp then (True, emit cmp lx1)
      else (False, lx1))"

definition scan_operator :: "TSLexer \<Rightarrow> valid_symbols \<Rightarrow> bool \<times> TSLexer" where
  "scan_operator lx valid =
     (let c = lookahead lx in
      if c = ch CHR ''='' then two_char_op lx valid (ch CHR ''='') EQEQ EQ
      else if c = ch CHR ''!'' then two_char_op lx valid (ch CHR ''='') NEQ EXCLAMATION
      else if c = ch CHR ''<'' then angle_op lx valid (ch CHR ''<'') LSHIFT LTEQ LT
      else if c = ch CHR ''>'' then angle_op lx valid (ch CHR ''>'') RSHIFT GTEQ GT
      else if c = ch CHR ''+'' then two_char_op lx valid (ch CHR ''='') PLUSEQ PLUS
      else if c = ch CHR ''-'' then two_char_op lx valid (ch CHR ''='') MINUSEQ MINUS
      else if c = ch CHR ''*'' then two_char_op lx valid (ch CHR ''='') STAREQ STAR
      else if c = ch CHR ''^'' then two_char_op lx valid (ch CHR ''='') CARETEQ CARET
      else if c = ch CHR ''&'' then two_char_op lx valid (ch CHR ''&'') AMPAMP AMP
      else if c = ch CHR ''.'' then two_char_op lx valid (ch CHR ''.'') DOTDOT DOT
      else if c = ch CHR ''|'' \<and> valid PIPE then (True, emit PIPE (advance lx))
      else if c = ch CHR ''~'' \<and> valid TILDE then (True, emit TILDE (advance lx))
      else if c = ch CHR ''/'' \<and> valid SLASH then (True, emit SLASH (advance lx))
      else if c = ch CHR ''%'' \<and> valid PERCENT then (True, emit PERCENT (advance lx))
      else if c = ch CHR '':'' \<and> valid COLON then (True, emit COLON (advance lx))
      else if c = ch CHR '','' \<and> valid COMMA then (True, emit COMMA (advance lx))
      else if c = ch CHR '';'' \<and> valid SEMICOLON then (True, emit SEMICOLON (advance lx))
      else (False, lx))"

text \<open>
  The part of section 4 of \<open>scan\<close> from the single quote on. None of its branches
  mentions the scanner state.
\<close>

definition scan_plain :: "TSLexer \<Rightarrow> valid_symbols \<Rightarrow> bool \<times> TSLexer" where
  "scan_plain lx valid =
     (let c = lookahead lx in
      if c = ch CHR 0x27 then scan_quote lx valid
      else if c = ch CHR ''_'' \<or> is_upper c then
        (if c = ch CHR ''_'' then scan_underscore lx valid
         else (case scan_upper_id lx valid of (tt, lx1) \<Rightarrow>
                 if tt \<noteq> TOKEN_COUNT \<and> valid tt then (True, emit tt lx1) else (False, lx1)))
      else if is_lower c then
        (case scan_lower_id_or_keyword lx valid of (tt, lx1) \<Rightarrow>
           if tt \<noteq> TOKEN_COUNT \<and> valid tt then (True, emit tt lx1) else (False, lx1))
      else if is_digit c \<and> valid INT_LITERAL then
        (case scan_int_literal lx of (ok, lx1) \<Rightarrow>
           if ok then (True, emit INT_LITERAL (mark_end lx1)) else (False, lx1))
      else scan_operator lx valid)"

definition scan_token :: "Scanner \<Rightarrow> TSLexer \<Rightarrow> valid_symbols \<Rightarrow> scan_result" where
  "scan_token s lx valid =
     (let c = lookahead lx in
      if eof lx then eof_rule s lx valid
      else if c = ch CHR ''#'' then (case scan_comment lx valid of (b, lx') \<Rightarrow> (b, s, lx'))
      else if c = ch CHR 0x22 \<and> valid BEGIN_STR
      then (True, s\<lparr>in_string := True\<rparr>, emit BEGIN_STR (advance lx))
      else if c = ch CHR 0x60 \<and> valid END_INTERPOLATION
      then (True,
            (if kind (top_frame s) = FRAME_INTERPOLATION then pop_frame s else s)
              \<lparr>in_string := True\<rparr>,
            emit END_INTERPOLATION (advance lx))
      else if c = ch CHR 0x5C then
        (let lx1 = advance lx in
         if lookahead lx1 = ch CHR ''('' \<and> valid BACKSLASH_LPAREN
         then (True, push_frame s FRAME_PAREN 0, emit BACKSLASH_LPAREN (advance lx1))
         else (False, s, lx1))
      else if c = ch CHR ''('' \<and> valid LPAREN
      then (True, push_frame s FRAME_PAREN 0, emit LPAREN (advance lx))
      else if c = ch CHR '')'' \<and> valid RPAREN
      then (True, (if kind (top_frame s) = FRAME_PAREN then pop_frame s else s),
            emit RPAREN (advance lx))
      else if c = ch CHR ''['' \<and> valid LBRACKET
      then (True, push_frame s FRAME_BRACKET 0, emit LBRACKET (advance lx))
      else if c = ch CHR '']'' \<and> valid RBRACKET
      then (True, (if kind (top_frame s) = FRAME_BRACKET then pop_frame s else s),
            emit RBRACKET (advance lx))
      else if c = ch CHR ''{'' \<and> valid LBRACE
      then (True, push_frame s FRAME_INDENTED 0, emit LBRACE (advance lx))
      else if c = ch CHR ''}'' \<and> valid RBRACE
      then (True,
            (if kind (top_frame s) = FRAME_INDENTED \<and> 1 < depth s then pop_frame s else s),
            emit RBRACE (advance lx))
      else (case scan_plain lx valid of (b, lx') \<Rightarrow> (b, s, lx')))"

definition scan :: "Scanner \<Rightarrow> TSLexer \<Rightarrow> valid_symbols \<Rightarrow> scan_result" where
  "scan s lx valid =
     (if 0 < pending_end_blocks s \<and> valid END_BLOCK
      then (True, pop_frame (s\<lparr>pending_end_blocks := pending_end_blocks s - 1\<rparr>),
            emit END_BLOCK lx)
      else if in_string s then scan_string_mode s lx valid
      else
        (case (if in_non_indented s then layout_non_indented s lx valid
               else layout_indented s lx valid) of
           Return b s' lx' \<Rightarrow> (b, s', lx')
         | Fallthrough lx' \<Rightarrow> scan_token s lx' valid))"

section \<open>Creation and serialization\<close>

definition create :: Scanner where
  \<comment> \<open>\<open>calloc\<close> zeroes the object; then \<open>depth = 1\<close> and the sentinel frame\<close>
  "create =
     \<lparr>stack = replicate MAX_DEPTH \<lparr>kind = FRAME_INDENTED, block_col = 0\<rparr>,
      depth = 1, pending_end_blocks = 0, in_string = False, eof_newline_emitted = False\<rparr>"

text \<open>
  Modelled from the spec: the bound \<open>TREE_SITTER_SERIALIZATION_BUFFER_SIZE\<close> of the
  host-provided buffer, a macro of \<open>tree_sitter/parser.h\<close>, which is not among the
  sources; the host framework defines it as 1024.
\<close>

definition TREE_SITTER_SERIALIZATION_BUFFER_SIZE :: nat where
  "TREE_SITTER_SERIALIZATION_BUFFER_SIZE = 1024"

text \<open>
  The buffer is the host's array of bytes, a list of that length; \<open>serialize\<close> returns
  it with the bytes written and the count \<open>pos\<close>.
\<close>

function serialize_frames :: "Scanner \<Rightarrow> nat \<Rightarrow> nat \<Rightarrow> 8 word list \<Rightarrow> 8 word list \<times> nat" where
  "serialize_frames s i pos buffer =
     (if i < unat (depth s) \<and> pos + 3 \<le> TREE_SITTER_SERIALIZATION_BUFFER_SIZE
      then serialize_frames s (Suc i) (pos + 3)
             (buffer[pos := kind (stack s ! i),
                     pos + 1 := ucast (block_col (stack s ! i) AND 0xFF),
                     pos + 2 := ucast (drop_bit 8 (block_col (stack s ! i)) AND 0xFF)])
      else (buffer, pos))"
  by pat_completeness auto
termination
  by (relation "measure (\<lambda>(s, i, pos, buffer). unat (depth s) - i)") auto

declare serialize_frames.simps [simp del]

definition serialize :: "Scanner \<Rightarrow> 8 word list \<Rightarrow> 8 word list \<times> nat" where
  "serialize s buffer =
     serialize_frames s 0 4
       (buffer[0 := depth s, 1 := pending_end_blocks s,
               2 := (if in_string s then 1 else 0),
               3 := (if eof_newline_emitted s then 1 else 0)])"

text \<open>
  \<open>deserialize\<close> writes into the scanner object it is given. A depth byte above
  \<open>MAX_DEPTH\<close> makes the C loop write beyond the array: the result \<open>None\<close>.
\<close>

function deserialize_frames ::
  "Scanner \<Rightarrow> 8 word list \<Rightarrow> nat \<Rightarrow> nat \<Rightarrow> nat \<Rightarrow> Scanner option" where
  "deserialize_frames s buffer len i pos =
     (if i < unat (depth s) \<and> pos + 3 \<le> len then
        (if i < MAX_DEPTH then
           deserialize_frames
             (s\<lparr>stack := (stack s)[i :=
                   \<lparr>kind = buffer ! pos,
                    block_col = ucast (buffer ! (pos + 1)) OR push_bit 8 (ucast (buffer ! (pos + 2)))\<rparr>]\<rparr>)
             buffer len (Suc i) (pos + 3)
         else None)
      else Some s)"
  by pat_completeness auto
termination
  by (relation "measure (\<lambda>(s, buffer, len, i, pos). unat (depth s) - i)") auto

declare deserialize_frames.simps [simp del]

definition deserialize :: "Scanner \<Rightarrow> 8 word list \<Rightarrow> nat \<Rightarrow> Scanner option" where
  "deserialize s buffer len =
     (if len = 0 then
        Some (s\<lparr>stack := (stack s)[0 := \<lparr>kind = FRAME_INDENTED, block_col = 0\<rparr>],
                depth := 1, pending_end_blocks := 0, in_string := False,
                eof_newline_emitted := False\<rparr>)
      else
        deserialize_frames
          (s\<lparr>depth := buffer ! 0, pending_end_blocks := buffer ! 1,
             in_string := (buffer ! 2 \<noteq> 0), eof_newline_emitted := (buffer ! 3 \<noteq> 0)\<rparr>)
          buffer len 0 4)"

section \<open>Auxiliary notions for the properties\<close>

text \<open>The three bytes that \<open>serialize\<close> writes for a frame, found at a position of a buffer.\<close>

definition frame_bytes_at :: "8 word list \<Rightarrow> nat \<Rightarrow> Frame \<Rightarrow> bool" where
  "frame_bytes_at buffer pos f \<longleftrightarrow>
     buffer ! pos = kind f \<and>
     buffer ! (pos + 1) = ucast (block_col f AND 0xFF) \<and>
     buffer ! (pos + 2) = ucast (drop_bit 8 (block_col f) AND 0xFF)"


text \<open>The valid-token bitmap in which exactly the listed tokens are valid.\<close>

definition only :: "TokenType list \<Rightarrow> valid_symbols" where
  "only toks t \<longleftrightarrow> t \<in> set toks"


text \<open>
  What emitting a closing delimiter does to the frame stack: the top frame is popped when
  its kind matches the delimiter, and the scanner state is left as it is otherwise.
\<close>

definition closer_effect :: "Scanner \<Rightarrow> TokenType \<Rightarrow> Scanner \<Rightarrow> bool" where
  "closer_effect s tok s' \<longleftrightarrow>
     (tok = RPAREN \<longrightarrow> s' = (if kind (top_frame s) = FRAME_PAREN then pop_frame s else s)) \<and>
     (tok = RBRACKET \<longrightarrow> s' = (if kind (top_frame s) = FRAME_BRACKET then pop_frame s else s)) \<and>
     (tok = RBRACE \<longrightarrow>
        s' = (if kind (top_frame s) = FRAME_INDENTED \<and> 1 < depth s then pop_frame s else s))"


text \<open>
  The invariant on string mode: while \<open>in_string\<close> holds, the top frame is not an
  \<open>INTERPOLATION\<close> frame.
\<close>

definition string_not_over_interpolation :: "Scanner \<Rightarrow> bool" where
  "string_not_over_interpolation s \<longleftrightarrow>
     (in_string s \<longrightarrow> kind (top_frame s) \<noteq> FRAME_INTERPOLATION)"


text \<open>
  The live frames, bottom first, and the number of contiguous topmost live frames that
  satisfy a test: the counts that the layout rules speak of.
\<close>

definition live_frames :: "Scanner \<Rightarrow> Frame list" where
  "live_frames s = take (unat (depth s)) (stack s)"

definition top_run :: "(Frame \<Rightarrow> bool) \<Rightarrow> Scanner \<Rightarrow> nat" where
  "top_run P s = length (takeWhile P (rev (live_frames s)))"

definition is_indented :: "Frame \<Rightarrow> bool" where
  "is_indented f \<longleftrightarrow> kind f = FRAME_INDENTED"

definition indented_right_of :: "32 word \<Rightarrow> Frame \<Rightarrow> bool" where
  "indented_right_of col f \<longleftrightarrow> kind f = FRAME_INDENTED \<and> col < ucast (block_col f)"

text \<open>
  Modelled from the spec: the host invokes the scanner once per token request (section 2).
  \<open>scan_times n\<close> is \<open>n\<close> successive calls under one valid-token bitmap, each from the
  state and the handle that the call before it left, up to the first call that fails.
\<close>

fun scan_times :: "nat \<Rightarrow> Scanner \<Rightarrow> TSLexer \<Rightarrow> valid_symbols \<Rightarrow> scan_result" where
  "scan_times 0 s lx valid = (True, s, lx)"
| "scan_times (Suc n) s lx valid =
     (case scan s lx valid of (b, s', lx') \<Rightarrow>
        if b then scan_times n s' lx' valid else (False, s', lx'))"


section \<open>Evaluation\<close>

lemmas lexer_defs = lookahead_def eof_def lexer_advance_def mark_end_def get_column_def emit_def
  advance_def skip_def lexer_at_def token_extent_def

lemmas frame_defs = top_frame_def push_frame_def pop_frame_def in_non_indented_def
  indented_frames_above_delimiter_def MAX_DEPTH_def FrameKind_defs create_def

lemmas loop_simps = advance_while.simps skip_blank_lines.simps consume_underscores.simps
  consume_id_chars.simps scan_string_content.simps block_comment_loop.simps
  skip_newline_runs.simps skip_newlines.simps

lemmas scan_defs = scan_def scan_token_def scan_plain_def scan_operator_def two_char_op_def
  angle_op_def scan_underscore_def scan_quote_def scan_comment_def layout_indented_def
  indentation_check_def auto_close_def is_closer_def start_block_def open_block_def
  layout_skip_def layout_non_indented_def scan_string_mode_def eof_rule_def then_phase_def
  scan_int_literal_def scan_lower_id_or_keyword_def scan_upper_id_def lookup_keyword_def
  keywords_table_def skip_horizontal_ws_def skip_all_ws_def

lemmas eval_simps = lexer_defs frame_defs loop_simps scan_defs char_class_defs

lemmas more_eval = eval_simps Let_def only_def

section \<open>Serialization\<close>

lemma block_col_bytes:
  fixes x :: "16 word"
  shows "ucast (ucast (x AND 0xFF) :: 8 word) OR push_bit 8 (ucast (ucast (drop_bit 8 x AND 0xFF) :: 8 word)) = x"
proof -
  have m: "(0xFF :: 16 word) = mask 8"
    by (simp add: mask_eq_exp_minus_1)
  show ?thesis
    unfolding m by (rule bit_word_eqI) (auto simp: bit_simps)
qed

lemma serialize_frames_effect:
  assumes "unat (depth s) \<le> MAX_DEPTH" "length buffer = TREE_SITTER_SERIALIZATION_BUFFER_SIZE"
    "i \<le> unat (depth s)"
  shows "\<exists>buf'. serialize_frames s i (4 + 3 * i) buffer = (buf', 4 + 3 * unat (depth s)) \<and>
      length buf' = length buffer \<and>
      (\<forall>j < 4 + 3 * i. buf' ! j = buffer ! j) \<and>
      (\<forall>k. i \<le> k \<and> k < unat (depth s) \<longrightarrow> frame_bytes_at buf' (4 + 3 * k) (stack s ! k))"
  using assms
proof (induction "unat (depth s) - i" arbitrary: i buffer)
  case 0
  then have "i = unat (depth s)" by simp
  then show ?case
    by (subst serialize_frames.simps) auto
next
  case (Suc n)
  let ?f = "stack s ! i"
  let ?b = "buffer[4 + 3 * i := kind ?f,
                     4 + 3 * i + 1 := ucast (block_col ?f AND 0xFF),
                     4 + 3 * i + 2 := ucast (drop_bit 8 (block_col ?f) AND 0xFF)]"
  from Suc.hyps(2) have lt: "i < unat (depth s)" by simp
  with Suc.prems have fits: "4 + 3 * i + 3 \<le> TREE_SITTER_SERIALIZATION_BUFFER_SIZE"
    by (simp add: MAX_DEPTH_def TREE_SITTER_SERIALIZATION_BUFFER_SIZE_def)
  have step: "serialize_frames s i (4 + 3 * i) buffer = serialize_frames s (Suc i) (4 + 3 * Suc i) ?b"
    using lt fits by (subst serialize_frames.simps) (simp add: add.commute add.left_commute)
  have "n = unat (depth s) - Suc i" using Suc.hyps(2) by simp
  moreover have "length ?b = TREE_SITTER_SERIALIZATION_BUFFER_SIZE" using Suc.prems by simp
  moreover have "Suc i \<le> unat (depth s)" using lt by simp
  ultimately obtain buf' where r: "serialize_frames s (Suc i) (4 + 3 * Suc i) ?b = (buf', 4 + 3 * unat (depth s))"
      "length buf' = length ?b"
      "\<forall>j < 4 + 3 * Suc i. buf' ! j = ?b ! j"
      "\<forall>k. Suc i \<le> k \<and> k < unat (depth s) \<longrightarrow> frame_bytes_at buf' (4 + 3 * k) (stack s ! k)"
    using Suc.hyps(1) [of "Suc i" ?b] Suc.prems(1) by blast
  have len: "4 + 3 * i + 2 < length buffer" using fits Suc.prems(2) by simp
  have here: "frame_bytes_at buf' (4 + 3 * i) ?f"
    using r(3) len by (simp add: frame_bytes_at_def)
  have below: "\<forall>j < 4 + 3 * i. buf' ! j = buffer ! j"
    using r(3) by simp
  have all: "\<forall>k. i \<le> k \<and> k < unat (depth s) \<longrightarrow> frame_bytes_at buf' (4 + 3 * k) (stack s ! k)"
  proof (intro allI impI)
    fix k assume k: "i \<le> k \<and> k < unat (depth s)"
    show "frame_bytes_at buf' (4 + 3 * k) (stack s ! k)"
    proof (cases "k = i")
      case True
      then show ?thesis using here by simp
    next
      case False
      then show ?thesis using k r(4) by simp
    qed
  qed
  show ?case
    using step r(1) r(2) below all by simp
qed


lemma frame_of_bytes:
  "frame_bytes_at buffer pos f \<Longrightarrow>
   \<lparr>kind = buffer ! pos,
    block_col = ucast (buffer ! (pos + 1)) OR push_bit 8 (ucast (buffer ! (pos + 2)))\<rparr> = f"
  by (simp add: frame_bytes_at_def block_col_bytes)

lemma deserialize_frames_effect:
  assumes "unat (depth p) \<le> MAX_DEPTH" "length (stack p) = MAX_DEPTH" "i \<le> unat (depth p)"
    "\<forall>k. i \<le> k \<and> k < unat (depth p) \<longrightarrow> frame_bytes_at buffer (4 + 3 * k) (fs ! k)"
  shows "\<exists>s'. deserialize_frames p buffer (4 + 3 * unat (depth p)) i (4 + 3 * i) = Some s' \<and>
      depth s' = depth p \<and> pending_end_blocks s' = pending_end_blocks p \<and>
      in_string s' = in_string p \<and> eof_newline_emitted s' = eof_newline_emitted p \<and>
      length (stack s') = MAX_DEPTH \<and>
      (\<forall>k < i. stack s' ! k = stack p ! k) \<and>
      (\<forall>k. i \<le> k \<and> k < unat (depth p) \<longrightarrow> stack s' ! k = fs ! k)"
  using assms
proof (induction "unat (depth p) - i" arbitrary: i p)
  case 0
  then have "i = unat (depth p)" by simp
  with "0.prems" show ?case
    by (subst deserialize_frames.simps) auto
next
  case (Suc n)
  let ?p = "p\<lparr>stack := (stack p)[i := fs ! i]\<rparr>"
  from Suc.hyps(2) have lt: "i < unat (depth p)" by simp
  with Suc.prems have i_ok: "i < MAX_DEPTH" by simp
  have dec: "\<lparr>kind = buffer ! (4 + 3 * i),
        block_col = ucast (buffer ! (4 + 3 * i + 1)) OR push_bit 8 (ucast (buffer ! (4 + 3 * i + 2)))\<rparr>
      = fs ! i"
    using Suc.prems(4) lt by (intro frame_of_bytes) simp
  have step: "deserialize_frames p buffer (4 + 3 * unat (depth p)) i (4 + 3 * i)
      = deserialize_frames ?p buffer (4 + 3 * unat (depth p)) (Suc i) (4 + 3 * Suc i)"
    using lt i_ok dec by (subst deserialize_frames.simps) (simp add: add.commute add.left_commute)
  have "n = unat (depth ?p) - Suc i" using Suc.hyps(2) by simp
  moreover have "unat (depth ?p) \<le> MAX_DEPTH" "length (stack ?p) = MAX_DEPTH"
    "Suc i \<le> unat (depth ?p)"
    using Suc.prems lt by simp_all
  moreover have "\<forall>k. Suc i \<le> k \<and> k < unat (depth ?p) \<longrightarrow> frame_bytes_at buffer (4 + 3 * k) (fs ! k)"
    using Suc.prems(4) by simp
  ultimately obtain s' where r:
      "deserialize_frames ?p buffer (4 + 3 * unat (depth ?p)) (Suc i) (4 + 3 * Suc i) = Some s'"
      "depth s' = depth ?p" "pending_end_blocks s' = pending_end_blocks ?p"
      "in_string s' = in_string ?p" "eof_newline_emitted s' = eof_newline_emitted ?p"
      "length (stack s') = MAX_DEPTH"
      "\<forall>k < Suc i. stack s' ! k = stack ?p ! k"
      "\<forall>k. Suc i \<le> k \<and> k < unat (depth ?p) \<longrightarrow> stack s' ! k = fs ! k"
    using Suc.hyps(1) [of ?p "Suc i"] by blast
  have at_i: "stack s' ! i = fs ! i"
    using r(7) i_ok Suc.prems(2) by simp
  have below: "\<forall>k < i. stack s' ! k = stack p ! k"
    using r(7) by simp
  have above: "\<forall>k. i \<le> k \<and> k < unat (depth p) \<longrightarrow> stack s' ! k = fs ! k"
  proof (intro allI impI)
    fix k assume k: "i \<le> k \<and> k < unat (depth p)"
    show "stack s' ! k = fs ! k"
    proof (cases "k = i")
      case True
      then show ?thesis using at_i by simp
    next
      case False
      then show ?thesis using k r(8) by simp
    qed
  qed
  show ?case
    using step r(1-6) below above by simp
qed

text \<open>
  C3. For every scanner state of depth at most \<open>MAX_DEPTH\<close> whose live frames have one
  of the four frame kinds, \<open>deserialize\<close> on the
  buffer and the length that \<open>serialize\<close> produced restores the state: the same depth,
  the same \<open>pending_end_blocks\<close>, the same two flags, and the same frame (kind and
  \<open>block_col\<close>) in each of the \<open>depth\<close> live slots. The buffer is the host's, of
  \<open>TREE_SITTER_SERIALIZATION_BUFFER_SIZE\<close> bytes, and \<open>payload\<close> is the scanner
  object that \<open>deserialize\<close> overwrites.
\<close>

theorem serialize_deserialize_roundtrip:
  assumes "unat (depth s) \<le> MAX_DEPTH"
    and "length buffer = TREE_SITTER_SERIALIZATION_BUFFER_SIZE"
    and "length (stack payload) = MAX_DEPTH"
    and "\<forall>i < unat (depth s).
           kind (stack s ! i) \<in> {FRAME_INDENTED, FRAME_PAREN, FRAME_BRACKET, FRAME_INTERPOLATION}"
  shows "\<exists>s'. deserialize payload (fst (serialize s buffer)) (snd (serialize s buffer)) = Some s' \<and>
      depth s' = depth s \<and> pending_end_blocks s' = pending_end_blocks s \<and>
      in_string s' = in_string s \<and> eof_newline_emitted s' = eof_newline_emitted s \<and>
      (\<forall>i < unat (depth s). stack s' ! i = stack s ! i)"
proof -
  let ?hdr = "buffer[0 := depth s, 1 := pending_end_blocks s,
      2 := (if in_string s then 1 else 0), 3 := (if eof_newline_emitted s then 1 else 0)]"
  have len_hdr: "length ?hdr = TREE_SITTER_SERIALIZATION_BUFFER_SIZE"
    using assms(2) by simp
  have i0: "0 \<le> unat (depth s)"
    by simp
  obtain buf' where w:
      "serialize_frames s 0 (4 + 3 * 0) ?hdr = (buf', 4 + 3 * unat (depth s))"
      "length buf' = length ?hdr"
      "\<forall>j < 4 + 3 * 0. buf' ! j = ?hdr ! j"
      "\<forall>k. 0 \<le> k \<and> k < unat (depth s) \<longrightarrow> frame_bytes_at buf' (4 + 3 * k) (stack s ! k)"
    using serialize_frames_effect [OF assms(1) len_hdr i0] by (elim exE conjE) (rule that)
  have ser: "serialize s buffer = (buf', 4 + 3 * unat (depth s))"
    using w(1) by (simp add: serialize_def)
  have big: "0 < length buffer" "1 < length buffer" "2 < length buffer" "3 < length buffer"
    using assms(2) by (simp_all add: TREE_SITTER_SERIALIZATION_BUFFER_SIZE_def)
  have h0: "buf' ! 0 = depth s"
    using w(3) [rule_format, of 0] big by simp
  have h1: "buf' ! 1 = pending_end_blocks s"
    using w(3) [rule_format, of 1] big by simp
  have h2: "(buf' ! 2 \<noteq> 0) = in_string s"
    using w(3) [rule_format, of 2] big by simp
  have h3: "(buf' ! 3 \<noteq> 0) = eof_newline_emitted s"
    using w(3) [rule_format, of 3] big by simp
  let ?p = "payload\<lparr>depth := depth s, pending_end_blocks := pending_end_blocks s,
      in_string := in_string s, eof_newline_emitted := eof_newline_emitted s\<rparr>"
  have des: "deserialize payload buf' (4 + 3 * unat (depth s))
      = deserialize_frames ?p buf' (4 + 3 * unat (depth s)) 0 4"
    by (simp add: deserialize_def h0 h1 [unfolded One_nat_def] h2 h3)
  have p1: "unat (depth ?p) \<le> MAX_DEPTH"
    by (simp add: assms(1))
  have p2: "length (stack ?p) = MAX_DEPTH"
    by (simp add: assms(3))
  have p3: "\<forall>k. 0 \<le> k \<and> k < unat (depth ?p) \<longrightarrow> frame_bytes_at buf' (4 + 3 * k) (stack s ! k)"
    using w(4) by simp
  have i0': "0 \<le> unat (depth ?p)"
    by simp
  obtain s' where r0:
      "deserialize_frames ?p buf' (4 + 3 * unat (depth ?p)) 0 (4 + 3 * 0) = Some s'"
      "depth s' = depth ?p" "pending_end_blocks s' = pending_end_blocks ?p"
      "in_string s' = in_string ?p" "eof_newline_emitted s' = eof_newline_emitted ?p"
      "\<forall>k. 0 \<le> k \<and> k < unat (depth ?p) \<longrightarrow> stack s' ! k = stack s ! k"
    using deserialize_frames_effect [OF p1 p2 i0' p3] by (elim exE conjE) (rule that)
  have r: "deserialize_frames ?p buf' (4 + 3 * unat (depth s)) 0 4 = Some s'"
      "depth s' = depth s" "pending_end_blocks s' = pending_end_blocks s"
      "in_string s' = in_string s" "eof_newline_emitted s' = eof_newline_emitted s"
      "\<forall>k < unat (depth s). stack s' ! k = stack s ! k"
    using r0 by simp_all
  have "deserialize payload buf' (4 + 3 * unat (depth s)) = Some s'"
    using r(1) des by simp
  then show ?thesis
    using ser r(2-6) by simp
qed

theorem serialize_deserialize_roundtrip_witness:
  "\<exists>s'. deserialize create
        (fst (serialize
          (create\<lparr>stack := (stack create)[1 := \<lparr>kind = FRAME_PAREN, block_col = 0x1234\<rparr>],
                  depth := 2, pending_end_blocks := 3, in_string := True\<rparr>)
          (replicate 1024 0)))
        (snd (serialize
          (create\<lparr>stack := (stack create)[1 := \<lparr>kind = FRAME_PAREN, block_col = 0x1234\<rparr>],
                  depth := 2, pending_end_blocks := 3, in_string := True\<rparr>)
          (replicate 1024 0))) = Some s' \<and>
      depth s' = 2 \<and> pending_end_blocks s' = 3 \<and> in_string s' \<and> \<not> eof_newline_emitted s' \<and>
      stack s' ! 0 = \<lparr>kind = FRAME_INDENTED, block_col = 0\<rparr> \<and>
      stack s' ! 1 = \<lparr>kind = FRAME_PAREN, block_col = 0x1234\<rparr>"
proof -
  let ?s = "create\<lparr>stack := (stack create)[1 := \<lparr>kind = FRAME_PAREN, block_col = 0x1234\<rparr>],
                  depth := 2, pending_end_blocks := 3, in_string := True\<rparr>"
  let ?b = "replicate 1024 (0 :: 8 word)"
  have a1: "unat (depth ?s) \<le> MAX_DEPTH"
    by (simp add: MAX_DEPTH_def)
  have a2: "length ?b = TREE_SITTER_SERIALIZATION_BUFFER_SIZE"
    by (simp add: TREE_SITTER_SERIALIZATION_BUFFER_SIZE_def)
  have a3: "length (stack create) = MAX_DEPTH"
    by (simp add: create_def)
  have a4: "\<forall>i < unat (depth ?s).
      kind (stack ?s ! i) \<in> {FRAME_INDENTED, FRAME_PAREN, FRAME_BRACKET, FRAME_INTERPOLATION}"
    by (auto simp: create_def MAX_DEPTH_def less_2_cases_iff)
  obtain s' where r:
      "deserialize create (fst (serialize ?s ?b)) (snd (serialize ?s ?b)) = Some s'"
      "depth s' = depth ?s" "pending_end_blocks s' = pending_end_blocks ?s"
      "in_string s' = in_string ?s" "eof_newline_emitted s' = eof_newline_emitted ?s"
      "\<forall>i < unat (depth ?s). stack s' ! i = stack ?s ! i"
    using serialize_deserialize_roundtrip [OF a1 a2 a3 a4] by (elim exE conjE) (rule that)
  have f0: "stack s' ! 0 = stack ?s ! 0" and f1: "stack s' ! 1 = stack ?s ! 1"
    using r(6) by simp_all
  have "stack ?s ! 0 = \<lparr>kind = FRAME_INDENTED, block_col = 0\<rparr>"
      "stack ?s ! 1 = \<lparr>kind = FRAME_PAREN, block_col = 0x1234\<rparr>"
    by (simp_all add: create_def MAX_DEPTH_def)
  with f0 f1 r(1-5) show ?thesis
    by (intro exI [of _ s']) (simp add: create_def)
qed

section \<open>The loops over the input\<close>

text \<open>
  For a test that rejects the code point 0, \<open>advance_while\<close> is the loop of the source:
  the end-of-input test in its definition is never the one that decides.
\<close>

lemma advance_while_unfold:
  assumes "\<not> P 0"
  shows "advance_while P skp lx
    = (if P (lookahead lx) then advance_while P skp (lexer_advance skp lx) else lx)"
proof -
  have "eof lx \<Longrightarrow> \<not> P (lookahead lx)"
    using assms by (simp add: eof_def lookahead_def)
  then show ?thesis
    by (subst advance_while.simps) auto
qed


section \<open>The state invariant\<close>

text \<open>
  The initial state satisfies \<open>scanner_wf\<close>, and every call of \<open>scan\<close> keeps it: a push
  is dropped at \<open>MAX_DEPTH\<close>, a pop stops at the sentinel frame, and slot 0 is never
  written.
\<close>

lemma scanner_wf_push_frame: "scanner_wf s \<Longrightarrow> scanner_wf (push_frame s k c)"
proof -
  assume wf: "scanner_wf s"
  show ?thesis
  proof (cases "unat (depth s) < MAX_DEPTH")
    case True
    then have "unat (depth s) + 1 < 2 ^ LENGTH(8)"
      by (simp add: MAX_DEPTH_def)
    then have "unat (depth s + 1) = unat (depth s) + 1"
      by (simp add: unat_add_lem [THEN iffD1])
    with wf True show ?thesis
      by (auto simp: scanner_wf_def push_frame_def nth_list_update)
  next
    case False
    with wf show ?thesis
      by (simp add: push_frame_def)
  qed
qed

lemma scanner_wf_pop_frame: "scanner_wf s \<Longrightarrow> scanner_wf (pop_frame s)"
proof -
  assume wf: "scanner_wf s"
  show ?thesis
  proof (cases "1 < depth s")
    case True
    then have "unat (depth s - 1) = unat (depth s) - 1" "1 < unat (depth s)"
      by (simp_all add: unat_sub word_less_nat_alt word_le_nat_alt)
    with wf True show ?thesis
      by (auto simp: scanner_wf_def pop_frame_def)
  next
    case False
    with wf show ?thesis
      by (simp add: pop_frame_def)
  qed
qed

lemma scanner_wf_flags [simp]:
  "scanner_wf (s\<lparr>pending_end_blocks := n\<rparr>) = scanner_wf s"
  "scanner_wf (s\<lparr>in_string := b\<rparr>) = scanner_wf s"
  "scanner_wf (s\<lparr>eof_newline_emitted := b\<rparr>) = scanner_wf s"
  by (simp_all add: scanner_wf_def)

lemmas scanner_wf_steps = scanner_wf_push_frame scanner_wf_pop_frame

lemma eof_rule_wf: "scanner_wf s \<Longrightarrow> eof_rule s lx valid = (b, s', lx') \<Longrightarrow> scanner_wf s'"
  by (auto simp: eof_rule_def scanner_wf_steps split: if_splits)

lemma scan_string_mode_wf:
  "scanner_wf s \<Longrightarrow> scan_string_mode s lx valid = (b, s', lx') \<Longrightarrow> scanner_wf s'"
  by (auto simp: scan_string_mode_def scanner_wf_steps split: if_splits prod.splits)

lemma scan_token_wf:
  assumes "scanner_wf s" and "scan_token s lx valid = (b, s', lx')"
  shows "scanner_wf s'"
proof (cases "eof lx")
  case True
  with assms(2) have "eof_rule s lx valid = (b, s', lx')"
    by (simp add: scan_token_def)
  with assms(1) show ?thesis
    by (rule eof_rule_wf)
next
  case False
  show ?thesis
    using assms False
    by (auto simp: scan_token_def Let_def split_beta scanner_wf_steps split: if_splits)
qed

lemma layout_non_indented_wf:
  "scanner_wf s \<Longrightarrow> layout_non_indented s lx valid = Return b s' lx' \<Longrightarrow> scanner_wf s'"
  by (auto simp: layout_non_indented_def Let_def scanner_wf_steps split: if_splits)

lemma start_block_wf:
  "scanner_wf s \<Longrightarrow> start_block s lx at_newline valid = Return b s' lx' \<Longrightarrow> scanner_wf s'"
  by (auto simp: start_block_def open_block_def then_phase_def scanner_wf_steps
      split: if_splits phase.splits)

lemma auto_close_wf:
  "scanner_wf s \<Longrightarrow> auto_close s lx valid = Return b s' lx' \<Longrightarrow> scanner_wf s'"
  by (auto simp: auto_close_def Let_def scanner_wf_steps split: if_splits)

lemma indentation_check_wf:
  "scanner_wf s \<Longrightarrow> indentation_check s lx valid = Return b s' lx' \<Longrightarrow> scanner_wf s'"
  by (auto simp: indentation_check_def Let_def scanner_wf_steps split: if_splits)

lemma layout_indented_wf:
  "scanner_wf s \<Longrightarrow> layout_indented s lx valid = Return b s' lx' \<Longrightarrow> scanner_wf s'"
  by (auto simp: layout_indented_def then_phase_def
      dest: eof_rule_wf start_block_wf auto_close_wf indentation_check_wf
      split: if_splits prod.splits phase.splits)

lemma scan_preserves_scanner_wf:
  assumes "scanner_wf s" and "scan s lx valid = (b, s', lx')"
  shows "scanner_wf s'"
proof (cases "0 < pending_end_blocks s \<and> valid END_BLOCK")
  case True
  with assms(2) have "s' = pop_frame (s\<lparr>pending_end_blocks := pending_end_blocks s - 1\<rparr>)"
    by (auto simp: scan_def)
  with assms(1) show ?thesis
    by (simp add: scanner_wf_steps)
next
  case no_pending: False
  show ?thesis
  proof (cases "in_string s")
    case True
    with assms(2) no_pending have "scan_string_mode s lx valid = (b, s', lx')"
      by (simp add: scan_def)
    with assms(1) show ?thesis
      by (rule scan_string_mode_wf)
  next
    case False
    define p where "p = (if in_non_indented s then layout_non_indented s lx valid
              else layout_indented s lx valid)"
    have sc: "scan s lx valid = (case p of Return b s1 lx1 \<Rightarrow> (b, s1, lx1)
                | Fallthrough lx1 \<Rightarrow> scan_token s lx1 valid)"
      using no_pending False unfolding p_def scan_def by auto
    show ?thesis
    proof (cases p)
      case (Return b1 s1 lx1)
      with assms(2) sc have eq: "s1 = s'"
        by simp
      have "scanner_wf s1"
        using Return assms(1)
        by (cases "in_non_indented s")
          (auto simp: p_def dest: layout_non_indented_wf layout_indented_wf)
      with eq show ?thesis
        by simp
    next
      case (Fallthrough lx1)
      with assms(2) sc have "scan_token s lx1 valid = (b, s', lx')"
        by simp
      with assms(1) show ?thesis
        by (rule scan_token_wf)
    qed
  qed
qed

lemma create_wf: "scanner_wf create"
  by (simp add: scanner_wf_def create_def MAX_DEPTH_def FRAME_INDENTED_def)


section \<open>A failed call leaves the scanner state alone\<close>

lemma eof_rule_false: "eof_rule s lx valid = (False, s', lx') \<Longrightarrow> s' = s"
  by (auto simp: eof_rule_def split: if_splits)

lemma scan_string_mode_false: "scan_string_mode s lx valid = (False, s', lx') \<Longrightarrow> s' = s"
  by (auto simp: scan_string_mode_def split: if_splits prod.splits)

lemma scan_token_false: "scan_token s lx valid = (False, s', lx') \<Longrightarrow> s' = s"
  by (auto simp: scan_token_def Let_def dest: eof_rule_false split: if_splits prod.splits)

lemma layout_non_indented_false: "layout_non_indented s lx valid = Return False s' lx' \<Longrightarrow> s' = s"
  by (auto simp: layout_non_indented_def Let_def split: if_splits)

lemma start_block_false: "start_block s lx at_newline valid = Return False s' lx' \<Longrightarrow> s' = s"
  by (auto simp: start_block_def open_block_def then_phase_def split: if_splits phase.splits)

lemma auto_close_false: "auto_close s lx valid = Return False s' lx' \<Longrightarrow> s' = s"
  by (auto simp: auto_close_def Let_def split: if_splits)

lemma indentation_check_false: "indentation_check s lx valid = Return False s' lx' \<Longrightarrow> s' = s"
  by (auto simp: indentation_check_def Let_def split: if_splits)

lemma layout_indented_false: "layout_indented s lx valid = Return False s' lx' \<Longrightarrow> s' = s"
  by (auto simp: layout_indented_def then_phase_def
      dest: eof_rule_false start_block_false auto_close_false indentation_check_false
      split: if_splits prod.splits phase.splits)


text \<open>
  C9. Whenever a call of \<open>scan\<close> returns \<open>false\<close>, the scanner state is the one at
  entry: the depth, every stack frame, \<open>pending_end_blocks\<close>, \<open>in_string\<close> and
  \<open>eof_newline_emitted\<close>, for every input and every valid-token bitmap.
\<close>

theorem scan_failure_state_unchanged:
  assumes "scan s lx valid = (False, s', lx')"
  shows "s' = s"
  using assms
  by (auto simp: scan_def
      dest: scan_string_mode_false scan_token_false layout_non_indented_false layout_indented_false
      split: if_splits phase.splits)

theorem scan_failure_state_unchanged_witness:
  "\<not> fst (scan create (lexer_at (map ch ''?'') 0) (only [])) \<and>
   fst (snd (scan create (lexer_at (map ch ''?'') 0) (only []))) = create"
proof -
  have e: "scan create (lexer_at (map ch ''?'') 0) (only [])
      = (False, create, lexer_at (map ch ''?'') 0)"
    by (simp add: eval_simps only_def)
  from scan_failure_state_unchanged [OF e] e show ?thesis
    by simp
qed

section \<open>Closing delimiters and the frame stack\<close>

lemma result_symbol_emit [simp]: "result_symbol (emit tok lx) = tok"
  by (simp add: emit_def)

lemma result_symbol_lexer_advance [simp]:
  "result_symbol (lexer_advance skp lx) = result_symbol lx"
  by (simp add: lexer_advance_def split: list.splits)

lemma result_symbol_advance [simp]: "result_symbol (advance lx) = result_symbol lx"
  by (simp add: advance_def)

lemma result_symbol_advance_while [simp]:
  "result_symbol (advance_while P skp lx) = result_symbol lx"
proof (induction P skp lx rule: advance_while.induct)
  case (1 P skp lx)
  then show ?case
    by (subst advance_while.simps) simp
qed

lemma result_symbol_scan_string_content:
  "result_symbol (snd (scan_string_content has_content lx)) = result_symbol lx"
proof (induction has_content lx rule: scan_string_content.induct)
  case (1 has_content lx)
  then show ?case
    by (subst scan_string_content.simps) (simp add: Let_def)
qed

lemma lookup_in_tokens:
  "lookup_in kws word = LOWER_ID \<or> lookup_in kws word \<in> snd ` set kws"
  by (induction kws word rule: lookup_in.induct) auto

lemma lookup_keyword_not_closer:
  "lookup_keyword word \<noteq> RPAREN" "lookup_keyword word \<noteq> RBRACKET" "lookup_keyword word \<noteq> RBRACE"
  using lookup_in_tokens [of keywords_table word]
  by (auto simp: lookup_keyword_def keywords_table_def)

lemma scan_upper_id_tokens:
  "fst (scan_upper_id lx valid) \<in> {TOKEN_COUNT, KW_UPPER_FN, UPPER_ID}"
  by (simp add: scan_upper_id_def Let_def split: prod.splits)

lemma scan_lower_id_or_keyword_not_closer:
  "fst (scan_lower_id_or_keyword lx valid) \<notin> {RPAREN, RBRACKET, RBRACE}"
  by (simp add: scan_lower_id_or_keyword_def Let_def lookup_keyword_not_closer split: prod.splits)

lemma scan_operator_not_closer:
  "scan_operator lx valid = (True, lx') \<Longrightarrow> result_symbol lx' \<notin> {RPAREN, RBRACKET, RBRACE}"
  by (auto simp: scan_operator_def two_char_op_def angle_op_def Let_def split: if_splits)

lemma scan_quote_not_closer:
  "scan_quote lx valid = (True, lx') \<Longrightarrow> result_symbol lx' \<notin> {RPAREN, RBRACKET, RBRACE}"
  by (auto simp: scan_quote_def Let_def split: if_splits prod.splits)

lemma scan_underscore_not_closer:
  "scan_underscore lx valid = (True, lx') \<Longrightarrow> result_symbol lx' \<notin> {RPAREN, RBRACKET, RBRACE}"
  by (auto simp: scan_underscore_def Let_def split: if_splits)

lemma scan_plain_not_closer:
  assumes "scan_plain lx valid = (True, lx')"
  shows "result_symbol lx' \<notin> {RPAREN, RBRACKET, RBRACE}"
proof -
  have u: "\<And>tt lx1. scan_upper_id lx valid = (tt, lx1) \<Longrightarrow> tt \<notin> {RPAREN, RBRACKET, RBRACE}"
    using scan_upper_id_tokens [of lx valid] by auto
  have l: "\<And>tt lx1. scan_lower_id_or_keyword lx valid = (tt, lx1) \<Longrightarrow> tt \<notin> {RPAREN, RBRACKET, RBRACE}"
    using scan_lower_id_or_keyword_not_closer [of lx valid] by auto
  show ?thesis
    using assms
    by (auto simp: scan_plain_def Let_def
        dest: scan_operator_not_closer scan_quote_not_closer scan_underscore_not_closer u l
        split: if_splits prod.splits)
qed

lemma scan_comment_not_closer:
  "scan_comment lx valid = (True, lx') \<Longrightarrow> result_symbol lx' \<notin> {RPAREN, RBRACKET, RBRACE}"
  by (auto simp: scan_comment_def Let_def split: if_splits)

lemma eof_rule_layout_token:
  "eof_rule s lx valid = (True, s', lx') \<Longrightarrow> result_symbol lx' \<in> {NEWLINE, END_BLOCK}"
  by (auto simp: eof_rule_def split: if_splits)

lemma closer_effect_other:
  "tok \<notin> {RPAREN, RBRACKET, RBRACE} \<Longrightarrow> closer_effect s tok s'"
  by (simp add: closer_effect_def)

lemma scan_plain_not_closer':
  "fst (scan_plain lx valid) \<Longrightarrow>
   result_symbol (snd (scan_plain lx valid)) \<noteq> RPAREN \<and>
   result_symbol (snd (scan_plain lx valid)) \<noteq> RBRACKET \<and>
   result_symbol (snd (scan_plain lx valid)) \<noteq> RBRACE"
  using scan_plain_not_closer [of lx valid "snd (scan_plain lx valid)"]
  by (cases "scan_plain lx valid") simp

lemma scan_comment_not_closer':
  "fst (scan_comment lx valid) \<Longrightarrow>
   result_symbol (snd (scan_comment lx valid)) \<noteq> RPAREN \<and>
   result_symbol (snd (scan_comment lx valid)) \<noteq> RBRACKET \<and>
   result_symbol (snd (scan_comment lx valid)) \<noteq> RBRACE"
  using scan_comment_not_closer [of lx valid "snd (scan_comment lx valid)"]
  by (cases "scan_comment lx valid") simp

lemma scan_token_closer:
  assumes "scan_token s lx valid = (True, s', lx')"
  shows "closer_effect s (result_symbol lx') s'"
proof (cases "eof lx")
  case True
  with assms have "eof_rule s lx valid = (True, s', lx')"
    by (simp add: scan_token_def)
  from eof_rule_layout_token [OF this] show ?thesis
    by (auto simp: closer_effect_def)
next
  case False
  show ?thesis
    using assms False
    by (simp add: scan_token_def Let_def closer_effect_def split_beta
        split: if_splits)
       (use scan_plain_not_closer' [of lx valid] scan_comment_not_closer' [of lx valid] in auto)
qed

lemma scan_string_mode_closer:
  assumes "scan_string_mode s lx valid = (True, s', lx')"
  shows "result_symbol lx' \<in> {STRING_CONTENT, END_STR, BEGIN_INTERPOLATION}"
proof -
  have "\<And>lx1. scan_string_content False (emit STRING_CONTENT lx) = (True, lx1)
      \<Longrightarrow> result_symbol lx1 = STRING_CONTENT"
    using result_symbol_scan_string_content [of False "emit STRING_CONTENT lx"] by simp
  then show ?thesis
    using assms by (auto simp: scan_string_mode_def split: if_splits prod.splits)
qed

lemma layout_non_indented_token:
  "layout_non_indented s lx valid = Return True s' lx' \<Longrightarrow>
   result_symbol lx' \<in> {NEWLINE, START_BLOCK, END_BLOCK}"
  by (auto simp: layout_non_indented_def Let_def split: if_splits)

lemma start_block_token:
  "start_block s lx at_newline valid = Return True s' lx' \<Longrightarrow>
   result_symbol lx' \<in> {NEWLINE, START_BLOCK, END_BLOCK}"
  by (auto simp: start_block_def open_block_def then_phase_def split: if_splits phase.splits)

lemma auto_close_token:
  "auto_close s lx valid = Return True s' lx' \<Longrightarrow>
   result_symbol lx' \<in> {NEWLINE, START_BLOCK, END_BLOCK}"
  by (auto simp: auto_close_def Let_def split: if_splits)

lemma indentation_check_token:
  "indentation_check s lx valid = Return True s' lx' \<Longrightarrow>
   result_symbol lx' \<in> {NEWLINE, START_BLOCK, END_BLOCK}"
  by (auto simp: indentation_check_def Let_def split: if_splits)

lemma layout_indented_token:
  "layout_indented s lx valid = Return True s' lx' \<Longrightarrow>
   result_symbol lx' \<in> {NEWLINE, START_BLOCK, END_BLOCK}"
  by (auto simp: layout_indented_def then_phase_def
      dest: eof_rule_layout_token start_block_token auto_close_token indentation_check_token
      split: if_splits prod.splits phase.splits)


text \<open>
  C10. When a call of \<open>scan\<close> emits \<open>RPAREN\<close> (\<open>RBRACKET\<close>, \<open>RBRACE\<close>), it pops the
  top frame only if that frame's kind is \<open>PAREN\<close> (\<open>BRACKET\<close>; \<open>INDENTED\<close> with
  \<open>depth > 1\<close>); when the kind does not match, the token is emitted all the same and
  the scanner state, the depth and every frame with it, is the one at entry.
\<close>

theorem closing_delimiter_pops_matching_frame:
  assumes "scan s lx valid = (True, s', lx')"
  shows "(result_symbol lx' = RPAREN \<longrightarrow>
            s' = (if kind (top_frame s) = FRAME_PAREN then pop_frame s else s)) \<and>
         (result_symbol lx' = RBRACKET \<longrightarrow>
            s' = (if kind (top_frame s) = FRAME_BRACKET then pop_frame s else s)) \<and>
         (result_symbol lx' = RBRACE \<longrightarrow>
            s' = (if kind (top_frame s) = FRAME_INDENTED \<and> 1 < depth s then pop_frame s else s))"
proof -
  have "closer_effect s (result_symbol lx') s'"
  proof (cases "0 < pending_end_blocks s \<and> valid END_BLOCK")
    case True
    with assms have "result_symbol lx' = END_BLOCK"
      by (auto simp: scan_def)
    then show ?thesis
      by (simp add: closer_effect_def)
  next
    case no_pending: False
    show ?thesis
    proof (cases "in_string s")
      case True
      with assms no_pending have "scan_string_mode s lx valid = (True, s', lx')"
        by (simp add: scan_def)
      from scan_string_mode_closer [OF this] show ?thesis
        by (auto simp: closer_effect_def)
    next
      case False
      define p where "p = (if in_non_indented s then layout_non_indented s lx valid
                else layout_indented s lx valid)"
      have sc: "scan s lx valid = (case p of Return b s1 lx1 \<Rightarrow> (b, s1, lx1)
                  | Fallthrough lx1 \<Rightarrow> scan_token s lx1 valid)"
        using no_pending False unfolding p_def scan_def by auto
      show ?thesis
      proof (cases p)
        case (Return b s1 lx1)
        with assms sc have eq: "b = True" "s1 = s'" "lx1 = lx'"
          by simp_all
        have "result_symbol lx1 \<in> {NEWLINE, START_BLOCK, END_BLOCK}"
        proof (cases "in_non_indented s")
          case True
          with Return eq have "layout_non_indented s lx valid = Return True s1 lx1"
            by (simp add: p_def)
          then show ?thesis
            by (rule layout_non_indented_token)
        next
          case False
          with Return eq have "layout_indented s lx valid = Return True s1 lx1"
            by (simp add: p_def)
          then show ?thesis
            by (rule layout_indented_token)
        qed
        then show ?thesis
          using eq by (auto simp: closer_effect_def)
      next
        case (Fallthrough lx1)
        with assms sc have "scan_token s lx1 valid = (True, s', lx')"
          by simp
        then show ?thesis
          by (rule scan_token_closer)
      qed
    qed
  qed
  then show ?thesis
    by (simp add: closer_effect_def)
qed

theorem closing_delimiter_pops_matching_frame_witness:
  "scan (push_frame create FRAME_PAREN 0) (lexer_at (map ch '')'') 1) (only [RPAREN])
     = (True, create\<lparr>stack := stack (push_frame create FRAME_PAREN 0)\<rparr>,
        emit RPAREN (advance (lexer_at (map ch '')'') 1))) \<and>
   kind (top_frame (push_frame create FRAME_PAREN 0)) = FRAME_PAREN \<and>
   depth (push_frame create FRAME_PAREN 0) = 2 \<and>
   scan create (lexer_at (map ch '')'') 1) (only [RPAREN])
     = (True, create, emit RPAREN (advance (lexer_at (map ch '')'') 1)))"
proof -
  let ?s = "push_frame create FRAME_PAREN 0"
  let ?lx = "lexer_at (map ch '')'') 1"
  let ?lx' = "emit RPAREN (advance ?lx)"
  have top: "kind (top_frame ?s) = FRAME_PAREN" "depth ?s = 2"
    by (simp_all add: frame_defs)
  have e1: "scan ?s ?lx (only [RPAREN]) = (True, fst (snd (scan ?s ?lx (only [RPAREN]))), ?lx')"
    by (simp add: eval_simps only_def)
  have e2: "scan create ?lx (only [RPAREN])
      = (True, fst (snd (scan create ?lx (only [RPAREN]))), ?lx')"
    by (simp add: eval_simps only_def)
  have p: "pop_frame ?s = create\<lparr>stack := stack ?s\<rparr>"
    by (simp add: frame_defs)
  have k: "kind (top_frame create) \<noteq> FRAME_PAREN"
    by (simp add: frame_defs)
  from closing_delimiter_pops_matching_frame [OF e1] top p
  have r1: "fst (snd (scan ?s ?lx (only [RPAREN]))) = create\<lparr>stack := stack ?s\<rparr>"
    by simp
  from closing_delimiter_pops_matching_frame [OF e2] k
  have r2: "fst (snd (scan create ?lx (only [RPAREN]))) = create"
    by simp
  from e1 e2 r1 r2 top show ?thesis
    by simp
qed

section \<open>Pending dedents\<close>

text \<open>
  C4, as amended. If at the start of a call \<open>pending_end_blocks > 0\<close> and \<open>END_BLOCK\<close>
  is valid, then before any other processing the call decrements \<open>pending_end_blocks\<close>
  by exactly one, calls \<open>pop_frame\<close> once, emits \<open>END_BLOCK\<close> and returns \<open>true\<close>,
  with every other field of the state as it was and no input consumed. \<open>pop_frame\<close>
  removes one frame when \<open>depth > 1\<close>; at \<open>depth = 1\<close> it leaves the sentinel frame
  where it is, so that no frame is popped there.
\<close>

theorem pending_end_block_drained_first:
  assumes "0 < pending_end_blocks s" and "valid END_BLOCK"
  shows "scan s lx valid =
           (True,
            s\<lparr>depth := (if 1 < depth s then depth s - 1 else depth s),
              pending_end_blocks := pending_end_blocks s - 1\<rparr>,
            lx\<lparr>result_symbol := END_BLOCK\<rparr>) \<and>
         unat (pending_end_blocks s - 1) = unat (pending_end_blocks s) - 1 \<and>
         (1 < depth s \<longrightarrow> unat (depth s - 1) = unat (depth s) - 1)"
proof -
  have "scan s lx valid =
      (True, pop_frame (s\<lparr>pending_end_blocks := pending_end_blocks s - 1\<rparr>), emit END_BLOCK lx)"
    using assms by (simp add: scan_def)
  moreover have "pop_frame (s\<lparr>pending_end_blocks := pending_end_blocks s - 1\<rparr>)
      = s\<lparr>depth := (if 1 < depth s then depth s - 1 else depth s),
          pending_end_blocks := pending_end_blocks s - 1\<rparr>"
    by (simp add: pop_frame_def)
  moreover have "1 \<le> pending_end_blocks s"
    using assms(1) by (simp add: word_less_nat_alt word_le_nat_alt)
  then have "unat (pending_end_blocks s - 1) = unat (pending_end_blocks s) - 1"
    by (simp add: unat_sub)
  moreover have "1 < depth s \<longrightarrow> unat (depth s - 1) = unat (depth s) - 1"
    by (simp add: unat_sub word_less_nat_alt word_le_nat_alt)
  ultimately show ?thesis
    by (simp add: emit_def)
qed

theorem pending_end_block_drained_first_witness:
  "scan (push_frame create FRAME_INDENTED 4\<lparr>pending_end_blocks := 1\<rparr>)
       (lexer_at (map ch ''x'') 0) (only [END_BLOCK])
     = (True, create\<lparr>stack := stack (push_frame create FRAME_INDENTED 4)\<rparr>,
        lexer_at (map ch ''x'') 0\<lparr>result_symbol := END_BLOCK\<rparr>)"
proof -
  let ?s = "push_frame create FRAME_INDENTED 4\<lparr>pending_end_blocks := 1\<rparr>"
  have a: "0 < pending_end_blocks ?s" "only [END_BLOCK] END_BLOCK"
    by (simp_all add: only_def)
  from pending_end_block_drained_first
      [where s = ?s and valid = "only [END_BLOCK]" and lx = "lexer_at (map ch ''x'') 0", OF a]
  show ?thesis
    by (simp add: frame_defs)
qed

text \<open>
  The claim as stated, with "pops exactly one frame", fails at depth 1. The state is one
  the scanner reaches: at the top level a \<open>)\<close> with \<open>NEWLINE\<close> valid queues one
  dedent, counting the sentinel frame; the next call, with \<open>END_BLOCK\<close> valid, emits
  \<open>END_BLOCK\<close> and the depth stays 1.
\<close>

theorem pending_end_block_at_depth_one_counterexample:
  "scan create (lexer_at (map ch '')'') 0) (only [NEWLINE])
     = (True, create\<lparr>pending_end_blocks := 1\<rparr>, emit NEWLINE (lexer_at (map ch '')'') 0)) \<and>
   0 < pending_end_blocks (create\<lparr>pending_end_blocks := 1\<rparr>) \<and>
   only [END_BLOCK] END_BLOCK \<and>
   scan (create\<lparr>pending_end_blocks := 1\<rparr>) (lexer_at (map ch '')'') 0) (only [END_BLOCK])
     = (True, create, emit END_BLOCK (lexer_at (map ch '')'') 0)) \<and>
   depth (create\<lparr>pending_end_blocks := 1\<rparr>) = 1 \<and> depth create = 1"
  by (simp add: eval_simps only_def)


section \<open>String mode and interpolation frames\<close>

lemma layout_non_indented_in_string:
  "layout_non_indented s lx valid = Return b s' lx' \<Longrightarrow> in_string s' = in_string s"
  by (auto simp: layout_non_indented_def Let_def push_frame_def split: if_splits)

lemma eof_rule_in_string:
  "eof_rule s lx valid = (b, s', lx') \<Longrightarrow> in_string s' = in_string s"
  by (auto simp: eof_rule_def pop_frame_def split: if_splits)

lemma start_block_in_string:
  "start_block s lx at_newline valid = Return b s' lx' \<Longrightarrow> in_string s' = in_string s"
  by (auto simp: start_block_def open_block_def then_phase_def push_frame_def
      split: if_splits phase.splits)

lemma auto_close_in_string:
  "auto_close s lx valid = Return b s' lx' \<Longrightarrow> in_string s' = in_string s"
  by (auto simp: auto_close_def Let_def pop_frame_def split: if_splits)

lemma indentation_check_in_string:
  "indentation_check s lx valid = Return b s' lx' \<Longrightarrow> in_string s' = in_string s"
  by (auto simp: indentation_check_def Let_def pop_frame_def split: if_splits)

lemma layout_indented_in_string:
  "layout_indented s lx valid = Return b s' lx' \<Longrightarrow> in_string s' = in_string s"
  by (auto simp: layout_indented_def then_phase_def
      dest: eof_rule_in_string start_block_in_string auto_close_in_string
        indentation_check_in_string
      split: if_splits prod.splits phase.splits)

lemma scan_string_mode_in_string:
  "scan_string_mode s lx valid = (b, s', lx') \<Longrightarrow> \<not> in_string s' \<or> s' = s"
  by (auto simp: scan_string_mode_def push_frame_def split: if_splits prod.splits)

lemma scan_token_in_string:
  assumes "scan_token s lx valid = (b, s', lx')" and "\<not> in_string s"
  shows "\<not> in_string s' \<or>
         (b \<and> result_symbol lx' = BEGIN_STR \<and> s' = s\<lparr>in_string := True\<rparr>) \<or>
         (b \<and> result_symbol lx' = END_INTERPOLATION \<and>
          s' = (if kind (top_frame s) = FRAME_INTERPOLATION then pop_frame s else s)
                 \<lparr>in_string := True\<rparr>)"
proof (cases "eof lx")
  case True
  with assms(1) have "eof_rule s lx valid = (b, s', lx')"
    by (simp add: scan_token_def)
  from eof_rule_in_string [OF this] assms(2) show ?thesis
    by simp
next
  case False
  show ?thesis
    using assms False
    by (auto simp: scan_token_def Let_def split_beta push_frame_def pop_frame_def
        split: if_splits)
qed


lemma top_frame_in_string_update [simp]: "top_frame (s\<lparr>in_string := v\<rparr>) = top_frame s"
  by (simp add: top_frame_def)

lemma top_frame_pop_pending [simp]:
  "top_frame (pop_frame (s\<lparr>pending_end_blocks := n\<rparr>)) = top_frame (pop_frame s)"
  by (simp add: top_frame_def pop_frame_def)

lemma in_string_pop_frame [simp]: "in_string (pop_frame s) = in_string s"
  by (simp add: pop_frame_def)


text \<open>
  C5, as amended. A call of \<open>scan\<close> that starts in a state where \<open>in_string\<close> implies
  that the top frame is not \<open>INTERPOLATION\<close> ends in such a state, for every input and
  every valid-token bitmap, unless one of three transitions puts an \<open>INTERPOLATION\<close>
  frame on top in string mode: \<open>BEGIN_STR\<close> emitted while the top frame is
  \<open>INTERPOLATION\<close> (a string opened directly inside an interpolation hole),
  \<open>END_INTERPOLATION\<close> popping an \<open>INTERPOLATION\<close> frame that lies on another one, or a
  pending \<open>END_BLOCK\<close> drained in string mode whose pop uncovers one.
\<close>

theorem string_invariant_preserved_outside_three_transitions:
  assumes "scan s lx valid = (b, s', lx')"
    and "string_not_over_interpolation s"
    and "in_string s \<and> 0 < pending_end_blocks s \<and> valid END_BLOCK
         \<longrightarrow> kind (top_frame (pop_frame s)) \<noteq> FRAME_INTERPOLATION"
    and "b \<and> result_symbol lx' = BEGIN_STR \<longrightarrow> kind (top_frame s) \<noteq> FRAME_INTERPOLATION"
    and "b \<and> result_symbol lx' = END_INTERPOLATION \<and> kind (top_frame s) = FRAME_INTERPOLATION
         \<longrightarrow> kind (top_frame (pop_frame s)) \<noteq> FRAME_INTERPOLATION"
  shows "string_not_over_interpolation s'"
proof (cases "0 < pending_end_blocks s \<and> valid END_BLOCK")
  case True
  with assms(1) have "s' = pop_frame (s\<lparr>pending_end_blocks := pending_end_blocks s - 1\<rparr>)"
    by (auto simp: scan_def)
  with True assms(3) show ?thesis
    by (simp add: string_not_over_interpolation_def)
next
  case no_pending: False
  show ?thesis
  proof (cases "in_string s")
    case True
    with assms(1) no_pending have "scan_string_mode s lx valid = (b, s', lx')"
      by (simp add: scan_def)
    from scan_string_mode_in_string [OF this] assms(2) show ?thesis
      by (auto simp: string_not_over_interpolation_def)
  next
    case False
    define p where "p = (if in_non_indented s then layout_non_indented s lx valid
              else layout_indented s lx valid)"
    have sc: "scan s lx valid = (case p of Return b s1 lx1 \<Rightarrow> (b, s1, lx1)
                | Fallthrough lx1 \<Rightarrow> scan_token s lx1 valid)"
      using no_pending False unfolding p_def scan_def by auto
    show ?thesis
    proof (cases p)
      case (Return b1 s1 lx1)
      with assms(1) sc have eq: "s1 = s'"
        by simp
      have "in_string s1 = in_string s"
        using Return
        by (cases "in_non_indented s")
          (auto simp: p_def dest: layout_non_indented_in_string layout_indented_in_string)
      with False eq show ?thesis
        by (simp add: string_not_over_interpolation_def)
    next
      case (Fallthrough lx1)
      with assms(1) sc have "scan_token s lx1 valid = (b, s', lx')"
        by simp
      from scan_token_in_string [OF this False] assms(4,5) show ?thesis
        by (auto simp: string_not_over_interpolation_def split: if_splits)
    qed
  qed
qed

theorem string_invariant_preserved_witness:
  "string_not_over_interpolation (create\<lparr>in_string := True\<rparr>) \<and>
   scan (create\<lparr>in_string := True\<rparr>) (lexer_at (map ch [CHR 0x60]) 0) (only [BEGIN_INTERPOLATION])
     = (True, push_frame create FRAME_INTERPOLATION 0,
        emit BEGIN_INTERPOLATION (advance (lexer_at (map ch [CHR 0x60]) 0))) \<and>
   string_not_over_interpolation (push_frame create FRAME_INTERPOLATION 0)"
proof -
  let ?s = "create\<lparr>in_string := True\<rparr>"
  let ?lx = "lexer_at (map ch [CHR 0x60]) 0"
  have i: "string_not_over_interpolation ?s"
    by (simp add: string_not_over_interpolation_def frame_defs)
  have e: "scan ?s ?lx (only [BEGIN_INTERPOLATION])
      = (True, push_frame create FRAME_INTERPOLATION 0, emit BEGIN_INTERPOLATION (advance ?lx))"
    by (simp add: eval_simps only_def)
  have h1: "in_string ?s \<and> 0 < pending_end_blocks ?s \<and> only [BEGIN_INTERPOLATION] END_BLOCK
      \<longrightarrow> kind (top_frame (pop_frame ?s)) \<noteq> FRAME_INTERPOLATION"
    by (simp add: only_def)
  have h2: "True \<and> result_symbol (emit BEGIN_INTERPOLATION (advance ?lx)) = BEGIN_STR
      \<longrightarrow> kind (top_frame ?s) \<noteq> FRAME_INTERPOLATION"
    by simp
  have h3: "True \<and> result_symbol (emit BEGIN_INTERPOLATION (advance ?lx)) = END_INTERPOLATION \<and>
      kind (top_frame ?s) = FRAME_INTERPOLATION
      \<longrightarrow> kind (top_frame (pop_frame ?s)) \<noteq> FRAME_INTERPOLATION"
    by simp
  from string_invariant_preserved_outside_three_transitions [OF e i h1 h2 h3] i e
  show ?thesis
    by simp
qed

text \<open>
  The claim as stated fails on the input \<open>"`"\<close> from the initial state: the second
  \<open>"\<close> opens a string inside the interpolation hole, and the call ends with
  \<open>in_string\<close> set and the \<open>INTERPOLATION\<close> frame on top.
\<close>

theorem string_inside_interpolation_counterexample:
  "scan create (lexer_at (map ch [CHR 0x22, CHR 0x60, CHR 0x22]) 0)
       (only [BEGIN_STR, BEGIN_INTERPOLATION])
     = (True, create\<lparr>in_string := True\<rparr>,
        emit BEGIN_STR (advance (lexer_at (map ch [CHR 0x22, CHR 0x60, CHR 0x22]) 0))) \<and>
   scan (create\<lparr>in_string := True\<rparr>)
       (emit BEGIN_STR (advance (lexer_at (map ch [CHR 0x22, CHR 0x60, CHR 0x22]) 0)))
       (only [BEGIN_STR, BEGIN_INTERPOLATION])
     = (True, push_frame create FRAME_INTERPOLATION 0,
        emit BEGIN_INTERPOLATION
          (advance (advance (lexer_at (map ch [CHR 0x22, CHR 0x60, CHR 0x22]) 0)))) \<and>
   scanner_wf (push_frame create FRAME_INTERPOLATION 0) \<and>
   string_not_over_interpolation (push_frame create FRAME_INTERPOLATION 0) \<and>
   scan (push_frame create FRAME_INTERPOLATION 0)
       (emit BEGIN_INTERPOLATION
          (advance (advance (lexer_at (map ch [CHR 0x22, CHR 0x60, CHR 0x22]) 0))))
       (only [BEGIN_STR, BEGIN_INTERPOLATION])
     = (True, push_frame create FRAME_INTERPOLATION 0\<lparr>in_string := True\<rparr>,
        emit BEGIN_STR
          (advance (advance (advance (lexer_at (map ch [CHR 0x22, CHR 0x60, CHR 0x22]) 0))))) \<and>
   in_string (push_frame create FRAME_INTERPOLATION 0\<lparr>in_string := True\<rparr>) \<and>
   kind (top_frame (push_frame create FRAME_INTERPOLATION 0\<lparr>in_string := True\<rparr>))
     = FRAME_INTERPOLATION \<and>
   \<not> string_not_over_interpolation (push_frame create FRAME_INTERPOLATION 0\<lparr>in_string := True\<rparr>)"
  by (simp add: eval_simps only_def scanner_wf_def string_not_over_interpolation_def)

section \<open>Counting frames\<close>

lemma count_indented_eq:
  "n \<le> length st \<Longrightarrow>
   count_indented n st c = c + of_nat (length (takeWhile is_indented (rev (take n st))))"
proof (induction n arbitrary: c)
  case 0
  show ?case by simp
next
  case (Suc n)
  then have "take (Suc n) st = take n st @ [st ! n]"
    by (simp add: take_Suc_conv_app_nth)
  with Suc show ?case
    by (simp add: is_indented_def)
qed

lemma count_dedent_eq:
  "Suc n \<le> length st \<Longrightarrow>
   count_dedent n st col c
     = c + of_nat (length (takeWhile (indented_right_of col) (rev (take n (tl st)))))"
proof (induction n arbitrary: c)
  case 0
  show ?case by simp
next
  case (Suc n)
  then have "take (Suc n) (tl st) = take n (tl st) @ [st ! Suc n]"
    by (simp add: take_Suc_conv_app_nth nth_tl)
  with Suc show ?case
    by (simp add: indented_right_of_def)
qed

lemma takeWhile_snoc_stop: "\<not> P y \<Longrightarrow> takeWhile P (xs @ [y]) = takeWhile P xs"
  by (induction xs) auto

lemma live_frames_split:
  assumes "scanner_wf s"
  shows "rev (live_frames s) = rev (take (unat (depth s) - 1) (tl (stack s))) @ [stack s ! 0]"
proof -
  from assms obtain d where d: "unat (depth s) = Suc d"
    by (auto simp: scanner_wf_def dest: Suc_le_D)
  from assms have "stack s \<noteq> []"
    by (auto simp: scanner_wf_def MAX_DEPTH_def)
  then obtain f fs where st: "stack s = f # fs"
    by (cases "stack s") auto
  show ?thesis
    by (simp add: live_frames_def d st)
qed

lemma top_run_dedent:
  assumes "scanner_wf s"
  shows "top_run (indented_right_of col) s
    = length (takeWhile (indented_right_of col) (rev (take (unat (depth s) - 1) (tl (stack s)))))"
proof -
  have "\<not> indented_right_of col (stack s ! 0)"
    using assms by (simp add: scanner_wf_def indented_right_of_def)
  then show ?thesis
    by (simp add: top_run_def live_frames_split [OF assms] takeWhile_snoc_stop)
qed

lemma top_run_le: "scanner_wf s \<Longrightarrow> top_run P s \<le> unat (depth s)"
proof -
  assume "scanner_wf s"
  then have "length (rev (live_frames s)) = unat (depth s)"
    by (simp add: live_frames_def scanner_wf_def)
  moreover have "length (takeWhile P (rev (live_frames s))) \<le> length (rev (live_frames s))"
    by (rule length_takeWhile_le)
  ultimately show ?thesis
    by (simp add: top_run_def)
qed

lemma top_run_dedent_less:
  assumes "scanner_wf s"
  shows "top_run (indented_right_of col) s < unat (depth s)"
proof -
  have "length (takeWhile (indented_right_of col) (rev (take (unat (depth s) - 1) (tl (stack s)))))
      \<le> length (rev (take (unat (depth s) - 1) (tl (stack s))))"
    by (rule length_takeWhile_le)
  also have "\<dots> \<le> unat (depth s) - 1"
    by simp
  finally have "top_run (indented_right_of col) s \<le> unat (depth s) - 1"
    by (simp add: top_run_dedent [OF assms])
  moreover have "1 \<le> unat (depth s)"
    using assms by (simp add: scanner_wf_def)
  ultimately show ?thesis
    by linarith
qed

lemma top_run_pos:
  assumes "scanner_wf s" and "P (top_frame s)"
  shows "1 \<le> top_run P s"
proof -
  from assms(1) obtain d where d: "unat (depth s) = Suc d"
    by (auto simp: scanner_wf_def dest: Suc_le_D)
  from assms(1) d have "d < length (stack s)"
    by (simp add: scanner_wf_def)
  then have "live_frames s = take d (stack s) @ [stack s ! d]"
    by (simp add: live_frames_def d take_Suc_conv_app_nth)
  moreover have "top_frame s = stack s ! d"
    by (simp add: top_frame_def d)
  ultimately show ?thesis
    using assms(2) by (simp add: top_run_def)
qed

lemma unat_of_nat_count:
  "scanner_wf s \<Longrightarrow> n \<le> unat (depth s) \<Longrightarrow> unat (of_nat n :: 8 word) = n"
  by (simp add: scanner_wf_def MAX_DEPTH_def unat_of_nat)

lemma indented_frames_above_delimiter_eq:
  assumes "scanner_wf s"
  shows "indented_frames_above_delimiter s = of_nat (top_run is_indented s)"
  using assms
  by (simp add: indented_frames_above_delimiter_def count_indented_eq top_run_def
      live_frames_def scanner_wf_def)

lemma count_dedent_top_run:
  assumes "scanner_wf s"
  shows "count_dedent (unat (depth s) - 1) (stack s) col 0 = of_nat (top_run (indented_right_of col) s)"
proof -
  from assms have "Suc (unat (depth s) - 1) \<le> length (stack s)"
    by (simp add: scanner_wf_def)
  then show ?thesis
    by (simp add: count_dedent_eq top_run_dedent [OF assms])
qed



section \<open>Layout in indented mode\<close>

lemma layout_indented_reaches_check:
  assumes "layout_skip lx = (at_newline, lx1)" and "\<not> eof lx1"
    and "valid START_BLOCK \<longrightarrow> lookahead lx1 = ch CHR ''#''"
    and "\<not> is_closer (lookahead lx1)"
  shows "layout_indented s lx valid
    = (if at_newline then indentation_check s lx1 valid else Fallthrough lx1)"
proof -
  have sb: "start_block s lx1 at_newline valid = Fallthrough lx1"
    using assms(3) by (auto simp: start_block_def then_phase_def is_newline_def)
  have ac: "auto_close s lx1 valid = Fallthrough lx1"
    using assms(4) by (simp add: auto_close_def)
  show ?thesis
    using assms(1,2) by (simp add: layout_indented_def sb ac then_phase_def)
qed

lemma scan_in_indented_mode:
  assumes "\<not> in_string s" and "\<not> (0 < pending_end_blocks s \<and> valid END_BLOCK)"
    and "\<not> in_non_indented s"
  shows "scan s lx valid
    = (case layout_indented s lx valid of Return b s' lx' \<Rightarrow> (b, s', lx')
       | Fallthrough lx' \<Rightarrow> scan_token s lx' valid)"
  using assms by (auto simp: scan_def)

lemma emit_emit [simp]: "emit tok (emit tok' lx) = emit tok lx"
  by (simp add: emit_def)

lemma drain_pending:
  assumes "valid END_BLOCK"
  shows "unat (pending_end_blocks s) = n \<Longrightarrow> n < unat (depth s) \<Longrightarrow>
    scan_times n s lx valid
      = (True, s\<lparr>depth := depth s - of_nat n, pending_end_blocks := 0\<rparr>,
         (if n = 0 then lx else emit END_BLOCK lx))"
proof (induction n arbitrary: s lx)
  case 0
  then have "pending_end_blocks s = 0"
    by (simp add: unat_eq_0)
  then have "s\<lparr>depth := depth s, pending_end_blocks := 0\<rparr> = s"
    by (cases s) simp
  then show ?case
    by simp
next
  case (Suc n)
  let ?s1 = "s\<lparr>depth := depth s - 1, pending_end_blocks := pending_end_blocks s - 1\<rparr>"
  from Suc.prems(1) have p: "0 < pending_end_blocks s"
    by (simp add: word_less_nat_alt)
  from Suc.prems(2) have d: "1 < depth s"
    by (simp add: word_less_nat_alt)
  have step: "scan s lx valid = (True, ?s1, emit END_BLOCK lx)"
    using p d assms by (simp add: scan_def pop_frame_def)
  have p1: "unat (pending_end_blocks ?s1) = n"
    using Suc.prems(1) p by (simp add: unat_sub word_less_nat_alt word_le_nat_alt)
  have d1: "n < unat (depth ?s1)"
    using Suc.prems(2) d by (simp add: unat_sub word_less_nat_alt word_le_nat_alt)
  have "scan_times (Suc n) s lx valid = scan_times n ?s1 (emit END_BLOCK lx) valid"
    by (simp add: step)
  also have "\<dots> = (True, ?s1\<lparr>depth := depth ?s1 - of_nat n, pending_end_blocks := 0\<rparr>,
      (if n = 0 then emit END_BLOCK lx else emit END_BLOCK (emit END_BLOCK lx)))"
    using p1 d1 by (rule Suc.IH)
  finally show ?case
    by simp
qed

lemma top_run_stop:
  assumes "scanner_wf s" and "top_run P s < unat (depth s)"
  shows "\<not> P (stack s ! (unat (depth s) - Suc (top_run P s)))"
proof -
  let ?xs = "rev (live_frames s)"
  have len: "length (live_frames s) = unat (depth s)"
    using assms(1) by (simp add: live_frames_def scanner_wf_def)
  with assms(2) have "length (takeWhile P ?xs) < length ?xs"
    by (simp add: top_run_def)
  then have "\<not> P (?xs ! length (takeWhile P ?xs))"
    by (rule nth_length_takeWhile)
  moreover have "?xs ! top_run P s = live_frames s ! (unat (depth s) - Suc (top_run P s))"
    using assms(2) len by (simp add: rev_nth)
  moreover have "live_frames s ! (unat (depth s) - Suc (top_run P s))
      = stack s ! (unat (depth s) - Suc (top_run P s))"
    using assms(2) by (simp add: live_frames_def)
  ultimately show ?thesis
    by (simp add: top_run_def)
qed

lemma layout_indented_reaches_auto_close:
  assumes "layout_skip lx = (at_newline, lx1)" and "is_closer (lookahead lx1)"
    and "\<not> valid START_BLOCK"
  shows "layout_indented s lx valid
    = then_phase (auto_close s lx1 valid)
        (\<lambda>lx3. if at_newline then indentation_check s lx3 valid else Fallthrough lx3)"
proof -
  have "\<not> eof lx1"
    using assms(2) by (auto simp: eof_def lookahead_def is_closer_def)
  moreover have "start_block s lx1 at_newline valid = Fallthrough lx1"
    using assms(3) by (simp add: start_block_def)
  ultimately show ?thesis
    using assms(1) by (simp add: layout_indented_def then_phase_def)
qed


lemma top_run_is_indented_eval:
  assumes "scanner_wf s"
  shows "top_run is_indented s = unat (indented_frames_above_delimiter s)"
proof -
  have "unat (indented_frames_above_delimiter s) = unat (of_nat (top_run is_indented s) :: 8 word)"
    by (simp only: indented_frames_above_delimiter_eq [OF assms])
  also have "\<dots> = top_run is_indented s"
    using assms top_run_le [OF assms] by (rule unat_of_nat_count)
  finally show ?thesis
    by simp
qed

lemma top_run_dedent_eval:
  assumes "scanner_wf s"
  shows "top_run (indented_right_of col) s
    = unat (count_dedent (unat (depth s) - 1) (stack s) col 0)"
proof -
  have "unat (count_dedent (unat (depth s) - 1) (stack s) col 0)
      = unat (of_nat (top_run (indented_right_of col) s) :: 8 word)"
    by (simp only: count_dedent_top_run [OF assms])
  also have "\<dots> = top_run (indented_right_of col) s"
    using assms top_run_le [OF assms] by (rule unat_of_nat_count)
  finally show ?thesis
    by simp
qed

lemma count_dedent_unfold:
  "count_dedent i st col c =
     (if i = 0 then c
      else if kind (st ! i) = FRAME_INDENTED \<and> col < ucast (block_col (st ! i))
      then count_dedent (i - 1) st col (c + 1) else c)"
  by (cases i) simp_all

lemma count_indented_unfold:
  "count_indented n st c =
     (if n = 0 then c
      else if kind (st ! (n - 1)) = FRAME_INDENTED then count_indented (n - 1) st (c + 1) else c)"
  by (cases n) simp_all

lemmas layout_eval = more_eval count_dedent_unfold count_indented_unfold

text \<open>
  C1, as amended. In indented mode (not in string mode, no pending dedent taken), when
  the call has crossed at least one newline, the lookahead is not the end of the input and
  none of \<open>)\<close>, \<open>]\<close>, \<open>,\<close>, \<open>}\<close>, \<open>START_BLOCK\<close> is not valid or the lookahead is
  \<open>#\<close>, and the lookahead column \<open>col\<close> is strictly less than the top frame's
  \<open>block_col\<close>: the number of frames to pop is the count of contiguous topmost
  \<open>INDENTED\<close> frames whose \<open>block_col > col\<close>, and it is at least one; if \<open>NEWLINE\<close>
  is valid the call stores that count in \<open>pending_end_blocks\<close> and emits \<open>NEWLINE\<close>
  without popping a frame; otherwise, if \<open>END_BLOCK\<close> is valid, it stores the count
  minus one, pops exactly one frame and emits \<open>END_BLOCK\<close>.
\<close>

theorem dedent_after_newline:
  assumes "scanner_wf s" and "\<not> in_string s"
    and "\<not> (0 < pending_end_blocks s \<and> valid END_BLOCK)"
    and "\<not> in_non_indented s"
    and "layout_skip lx = (True, lx1)" and "\<not> eof lx1"
    and "valid START_BLOCK \<longrightarrow> lookahead lx1 = ch CHR ''#''"
    and "\<not> is_closer (lookahead lx1)"
    and "get_column lx1 < ucast (block_col (top_frame s))"
  defines "count \<equiv> top_run (indented_right_of (get_column lx1)) s"
  shows "1 \<le> count \<and> count < unat (depth s) \<and>
    count_dedent (unat (depth s) - 1) (stack s) (get_column lx1) 0 = of_nat count \<and>
    unat (of_nat count :: 8 word) = count \<and>
    (valid NEWLINE \<longrightarrow>
       scan s lx valid = (True, s\<lparr>pending_end_blocks := of_nat count\<rparr>, emit NEWLINE lx1)) \<and>
    (\<not> valid NEWLINE \<and> valid END_BLOCK \<longrightarrow>
       scan s lx valid
         = (True, s\<lparr>depth := depth s - 1, pending_end_blocks := of_nat (count - 1)\<rparr>,
            emit END_BLOCK lx1) \<and>
       unat (depth s - 1) = unat (depth s) - 1)"
proof -
  have top: "indented_right_of (get_column lx1) (top_frame s)"
    using assms(4,9) by (simp add: indented_right_of_def in_non_indented_def)
  have pos: "1 \<le> count"
    unfolding count_def using assms(1) top by (rule top_run_pos)
  have less: "count < unat (depth s)"
    unfolding count_def using assms(1) by (rule top_run_dedent_less)
  have counted: "count_dedent (unat (depth s) - 1) (stack s) (get_column lx1) 0 = of_nat count"
    unfolding count_def using assms(1) by (rule count_dedent_top_run)
  have "count \<le> unat (depth s)"
    using less by simp
  with assms(1) have un: "unat (of_nat count :: 8 word) = count"
    by (rule unat_of_nat_count)
  have nz: "(of_nat count :: 8 word) \<noteq> 0"
    using un pos by (auto simp: unat_eq_0 [symmetric] simp del: unat_eq_0)
  have deep: "1 < depth s"
    using pos less by (simp add: word_less_nat_alt)
  then have dm: "unat (depth s - 1) = unat (depth s) - 1"
    by (simp add: unat_sub word_less_nat_alt word_le_nat_alt)
  have pm: "(of_nat count :: 8 word) - 1 = of_nat (count - 1)"
    using pos by (simp add: of_nat_diff)
  have sc: "scan s lx valid
      = (case indentation_check s lx1 valid of Return b s' lx' \<Rightarrow> (b, s', lx')
         | Fallthrough lx' \<Rightarrow> scan_token s lx' valid)"
    using scan_in_indented_mode [where s = s and valid = valid and lx = lx, OF assms(2,3,4)]
      layout_indented_reaches_check
        [where s = s and valid = valid and lx = lx and ?lx1.0 = lx1, OF assms(5,6,7,8)]
    by simp
  have nl: "valid NEWLINE \<Longrightarrow>
      scan s lx valid = (True, s\<lparr>pending_end_blocks := of_nat count\<rparr>, emit NEWLINE lx1)"
    using assms(9) nz by (simp add: sc indentation_check_def Let_def counted [unfolded One_nat_def])
  have eb: "\<not> valid NEWLINE \<Longrightarrow> valid END_BLOCK \<Longrightarrow>
      scan s lx valid
        = (True, s\<lparr>depth := depth s - 1, pending_end_blocks := of_nat (count - 1)\<rparr>,
           emit END_BLOCK lx1)"
    using assms(9) nz deep
    by (simp add: sc indentation_check_def Let_def counted [unfolded One_nat_def] pop_frame_def pm)
  show ?thesis
    using pos less counted un nl eb dm by simp
qed



theorem dedent_after_newline_witness:
  "scan (push_frame (push_frame create FRAME_INDENTED 4) FRAME_INDENTED 8)
       (lexer_at (map ch [CHR 0x0A, CHR '' '', CHR '' '', CHR ''x'']) 1) (only [NEWLINE])
     = (True,
        push_frame (push_frame create FRAME_INDENTED 4) FRAME_INDENTED 8\<lparr>pending_end_blocks := 2\<rparr>,
        \<lparr>rest = map ch ''x'', column = 2, position = 3, token_start = 3, token_end = None,
         result_symbol = NEWLINE\<rparr>) \<and>
   top_run (indented_right_of 2)
     (push_frame (push_frame create FRAME_INDENTED 4) FRAME_INDENTED 8) = 2"
proof -
  let ?s = "push_frame (push_frame create FRAME_INDENTED 4) FRAME_INDENTED 8"
  let ?lx = "lexer_at (map ch [CHR 0x0A, CHR '' '', CHR '' '', CHR ''x'']) 1"
  let ?lx1 = "\<lparr>rest = map ch ''x'', column = 2, position = 3, token_start = 3,
      token_end = None, result_symbol = START_BLOCK\<rparr>"
  let ?v = "only [NEWLINE]"
  have wf: "scanner_wf ?s"
    by (simp add: scanner_wf_def frame_defs)
  have h2: "\<not> in_string ?s" and h3: "\<not> (0 < pending_end_blocks ?s \<and> ?v END_BLOCK)"
    and h4: "\<not> in_non_indented ?s"
    by (simp_all add: frame_defs only_def)
  have h5: "layout_skip ?lx = (True, ?lx1)"
    by (simp add: eval_simps)
  have h6: "\<not> eof ?lx1" and h7: "?v START_BLOCK \<longrightarrow> lookahead ?lx1 = ch CHR ''#''"
    and h8: "\<not> is_closer (lookahead ?lx1)"
    and h9: "get_column ?lx1 < ucast (block_col (top_frame ?s))"
    by (simp_all add: eval_simps only_def is_closer_def)
  have c: "top_run (indented_right_of (get_column ?lx1)) ?s = 2"
    unfolding top_run_dedent_eval [OF wf]
    by (simp add: frame_defs get_column_def count_dedent_unfold)
  from dedent_after_newline
    [where s = ?s and valid = ?v and lx = ?lx and ?lx1.0 = ?lx1, OF wf h2 h3 h4 h5 h6 h7 h8 h9]
  have "?v NEWLINE \<longrightarrow> scan ?s ?lx ?v
      = (True, ?s\<lparr>pending_end_blocks := of_nat (top_run (indented_right_of (get_column ?lx1)) ?s)\<rparr>,
         emit NEWLINE ?lx1)"
    by simp
  then show ?thesis
    using c by (simp add: only_def emit_def get_column_def)
qed

text \<open>
  The claim as stated fails when the dedented line begins with a closing delimiter: with
  frames of columns 0, 4 and 8 and a \<open>)\<close> in column 6, one frame lies right of the
  column, but the auto-close rule comes first and queues all three \<open>INDENTED\<close> frames,
  the sentinel among them.
\<close>

theorem dedent_before_closing_delimiter_counterexample:
  "scanner_wf (push_frame (push_frame create FRAME_INDENTED 4) FRAME_INDENTED 8) \<and>
   \<not> in_string (push_frame (push_frame create FRAME_INDENTED 4) FRAME_INDENTED 8) \<and>
   \<not> in_non_indented (push_frame (push_frame create FRAME_INDENTED 4) FRAME_INDENTED 8) \<and>
   layout_skip (lexer_at (map ch [CHR 0x0A, CHR '' '', CHR '' '', CHR '' '', CHR '' '',
       CHR '' '', CHR '' '', CHR '')'']) 1)
     = (True, \<lparr>rest = map ch '')'', column = 6, position = 7, token_start = 7,
               token_end = None, result_symbol = START_BLOCK\<rparr>) \<and>
   (6 :: 32 word) < ucast (block_col
       (top_frame (push_frame (push_frame create FRAME_INDENTED 4) FRAME_INDENTED 8))) \<and>
   top_run (indented_right_of 6)
     (push_frame (push_frame create FRAME_INDENTED 4) FRAME_INDENTED 8) = 1 \<and>
   only [NEWLINE] NEWLINE \<and>
   scan (push_frame (push_frame create FRAME_INDENTED 4) FRAME_INDENTED 8)
       (lexer_at (map ch [CHR 0x0A, CHR '' '', CHR '' '', CHR '' '', CHR '' '',
          CHR '' '', CHR '' '', CHR '')'']) 1)
       (only [NEWLINE])
     = (True,
        push_frame (push_frame create FRAME_INDENTED 4) FRAME_INDENTED 8\<lparr>pending_end_blocks := 3\<rparr>,
        \<lparr>rest = map ch '')'', column = 6, position = 7, token_start = 7, token_end = None,
         result_symbol = NEWLINE\<rparr>)"
proof -
  let ?s = "push_frame (push_frame create FRAME_INDENTED 4) FRAME_INDENTED 8"
  have wf: "scanner_wf ?s"
    by (simp add: scanner_wf_def frame_defs)
  have c: "top_run (indented_right_of 6) ?s = 1"
    unfolding top_run_dedent_eval [OF wf]
    by (simp add: frame_defs count_dedent_unfold)
  show ?thesis
    unfolding c by (simp add: layout_eval scanner_wf_def)
qed

text \<open>
  C2, as amended. When a call in indented mode (not in string mode, no pending dedent
  taken) with \<open>START_BLOCK\<close> not valid sees the lookahead \<open>)\<close>, \<open>]\<close>, \<open>,\<close> or \<open>}\<close>:
  if \<open>NEWLINE\<close> is valid, it sets \<open>pending_end_blocks\<close> to the count of contiguous
  topmost \<open>INDENTED\<close> frames (\<open>indented_frames_above_delimiter\<close>) and emits
  \<open>NEWLINE\<close>; when a frame that is not \<open>INDENTED\<close> lies below them, that many further
  calls with \<open>END_BLOCK\<close> valid each emit \<open>END_BLOCK\<close> and consume nothing, and leave
  that frame on top with the delimiter still the lookahead. Otherwise, if \<open>END_BLOCK\<close>
  is valid and \<open>depth > 1\<close>, the call pops exactly one frame and emits \<open>END_BLOCK\<close>.
\<close>

theorem auto_close_on_closing_delimiter:
  assumes "scanner_wf s" and "\<not> in_string s"
    and "\<not> (0 < pending_end_blocks s \<and> valid END_BLOCK)"
    and "\<not> in_non_indented s"
    and "layout_skip lx = (at_newline, lx1)" and "is_closer (lookahead lx1)"
    and "\<not> valid START_BLOCK"
  defines "count \<equiv> top_run is_indented s"
  shows "indented_frames_above_delimiter s = of_nat count \<and>
    unat (of_nat count :: 8 word) = count \<and> 1 \<le> count \<and>
    (valid NEWLINE \<longrightarrow>
       scan s lx valid = (True, s\<lparr>pending_end_blocks := of_nat count\<rparr>, emit NEWLINE lx1)) \<and>
    (valid NEWLINE \<and> count < unat (depth s) \<and> valid' END_BLOCK \<longrightarrow>
       scan_times count (s\<lparr>pending_end_blocks := of_nat count\<rparr>) (emit NEWLINE lx1) valid'
         = (True, s\<lparr>depth := depth s - of_nat count, pending_end_blocks := 0\<rparr>,
            emit END_BLOCK lx1) \<and>
       kind (top_frame (s\<lparr>depth := depth s - of_nat count, pending_end_blocks := 0\<rparr>))
         \<noteq> FRAME_INDENTED) \<and>
    (\<not> valid NEWLINE \<and> valid END_BLOCK \<and> 1 < depth s \<longrightarrow>
       scan s lx valid = (True, s\<lparr>depth := depth s - 1\<rparr>, emit END_BLOCK lx1))"
proof -
  have top: "is_indented (top_frame s)"
    using assms(4) by (simp add: is_indented_def in_non_indented_def)
  have pos: "1 \<le> count"
    unfolding count_def using assms(1) top by (rule top_run_pos)
  have le: "count \<le> unat (depth s)"
    unfolding count_def using assms(1) by (rule top_run_le)
  have ifad: "indented_frames_above_delimiter s = of_nat count"
    unfolding count_def using assms(1) by (rule indented_frames_above_delimiter_eq)
  have un: "unat (of_nat count :: 8 word) = count"
    using assms(1) le by (rule unat_of_nat_count)
  have nz: "0 < (of_nat count :: 8 word)"
    using un pos by (simp add: word_less_nat_alt)
  have sc: "scan s lx valid
      = (case then_phase (auto_close s lx1 valid)
            (\<lambda>lx3. if at_newline then indentation_check s lx3 valid else Fallthrough lx3) of
           Return b s' lx' \<Rightarrow> (b, s', lx')
         | Fallthrough lx' \<Rightarrow> scan_token s lx' valid)"
    using scan_in_indented_mode [where s = s and valid = valid and lx = lx, OF assms(2,3,4)]
      layout_indented_reaches_auto_close
        [where s = s and valid = valid and lx = lx and ?lx1.0 = lx1, OF assms(5,6,7)]
    by simp
  have nl: "valid NEWLINE \<Longrightarrow>
      scan s lx valid = (True, s\<lparr>pending_end_blocks := of_nat count\<rparr>, emit NEWLINE lx1)"
    using assms(6) nz by (simp add: sc auto_close_def then_phase_def ifad)
  have eb: "\<not> valid NEWLINE \<Longrightarrow> valid END_BLOCK \<Longrightarrow> 1 < depth s \<Longrightarrow>
      scan s lx valid = (True, s\<lparr>depth := depth s - 1\<rparr>, emit END_BLOCK lx1)"
    using assms(4,6)
    by (simp add: sc auto_close_def then_phase_def pop_frame_def in_non_indented_def)
  have drain: "scan_times count (s\<lparr>pending_end_blocks := of_nat count\<rparr>) (emit NEWLINE lx1) valid'
      = (True, s\<lparr>depth := depth s - of_nat count, pending_end_blocks := 0\<rparr>, emit END_BLOCK lx1)"
    if v: "valid' END_BLOCK" and lt: "count < unat (depth s)"
  proof -
    have "scan_times count (s\<lparr>pending_end_blocks := of_nat count\<rparr>) (emit NEWLINE lx1) valid'
      = (True, s\<lparr>pending_end_blocks := of_nat count\<rparr>
           \<lparr>depth := depth (s\<lparr>pending_end_blocks := of_nat count\<rparr>) - of_nat count,
            pending_end_blocks := 0\<rparr>,
         (if count = 0 then emit NEWLINE lx1 else emit END_BLOCK (emit NEWLINE lx1)))"
      using v by (rule drain_pending) (simp_all add: un lt)
    with pos show ?thesis
      by simp
  qed
  have below: "kind (top_frame (s\<lparr>depth := depth s - of_nat count, pending_end_blocks := 0\<rparr>))
      \<noteq> FRAME_INDENTED"
    if lt: "count < unat (depth s)"
  proof -
    have "of_nat count \<le> depth s"
      using un lt by (simp add: word_le_nat_alt)
    then have "unat (depth s - of_nat count) = unat (depth s) - count"
      by (simp add: unat_sub un)
    moreover have "\<not> is_indented (stack s ! (unat (depth s) - Suc count))"
      unfolding count_def using assms(1) lt [unfolded count_def] by (rule top_run_stop)
    ultimately show ?thesis
      by (simp add: top_frame_def is_indented_def)
  qed
  show ?thesis
    using ifad un pos nl eb drain below by simp
qed

theorem auto_close_on_closing_delimiter_witness:
  "scan (push_frame (push_frame create FRAME_PAREN 0) FRAME_INDENTED 4)
       (lexer_at (map ch '')'') 9) (only [NEWLINE])
     = (True,
        push_frame (push_frame create FRAME_PAREN 0) FRAME_INDENTED 4\<lparr>pending_end_blocks := 1\<rparr>,
        emit NEWLINE (lexer_at (map ch '')'') 9)) \<and>
   scan_times 1
       (push_frame (push_frame create FRAME_PAREN 0) FRAME_INDENTED 4\<lparr>pending_end_blocks := 1\<rparr>)
       (emit NEWLINE (lexer_at (map ch '')'') 9)) (only [END_BLOCK])
     = (True,
        push_frame (push_frame create FRAME_PAREN 0) FRAME_INDENTED 4\<lparr>depth := 2\<rparr>,
        emit END_BLOCK (lexer_at (map ch '')'') 9)) \<and>
   kind (top_frame (push_frame (push_frame create FRAME_PAREN 0) FRAME_INDENTED 4\<lparr>depth := 2\<rparr>))
     = FRAME_PAREN"
proof -
  let ?s = "push_frame (push_frame create FRAME_PAREN 0) FRAME_INDENTED 4"
  let ?lx = "lexer_at (map ch '')'') 9"
  let ?v = "only [NEWLINE]"
  have wf: "scanner_wf ?s"
    by (simp add: scanner_wf_def frame_defs)
  have h2: "\<not> in_string ?s" and h3: "\<not> (0 < pending_end_blocks ?s \<and> ?v END_BLOCK)"
    and h4: "\<not> in_non_indented ?s"
    by (simp_all add: frame_defs only_def)
  have h5: "layout_skip ?lx = (False, ?lx)"
    by (simp add: eval_simps)
  have h6: "is_closer (lookahead ?lx)" and h7: "\<not> ?v START_BLOCK"
    by (simp_all add: eval_simps only_def is_closer_def)
  have c: "top_run is_indented ?s = 1"
    unfolding top_run_is_indented_eval [OF wf]
    by (simp add: frame_defs count_indented_unfold)
  have d: "depth ?s = 3" "unat (depth ?s) = 3"
    by (simp_all add: frame_defs)
  from auto_close_on_closing_delimiter
    [where s = ?s and valid = ?v and lx = ?lx and ?lx1.0 = ?lx and at_newline = False
       and valid' = "only [END_BLOCK]", OF wf h2 h3 h4 h5 h6 h7]
  show ?thesis
    unfolding c d by (simp add: only_def frame_defs)
qed

text \<open>
  The claim as stated fails when \<open>START_BLOCK\<close> is valid: the block-opening rule comes
  first, and the call pushes a frame and emits \<open>START_BLOCK\<close> instead of \<open>NEWLINE\<close>.
\<close>

theorem auto_close_start_block_counterexample:
  "scanner_wf (push_frame (push_frame create FRAME_PAREN 0) FRAME_INDENTED 4) \<and>
   \<not> in_string (push_frame (push_frame create FRAME_PAREN 0) FRAME_INDENTED 4) \<and>
   pending_end_blocks (push_frame (push_frame create FRAME_PAREN 0) FRAME_INDENTED 4) = 0 \<and>
   \<not> in_non_indented (push_frame (push_frame create FRAME_PAREN 0) FRAME_INDENTED 4) \<and>
   top_run is_indented (push_frame (push_frame create FRAME_PAREN 0) FRAME_INDENTED 4) = 1 \<and>
   layout_skip (lexer_at (map ch '')'') 9) = (False, lexer_at (map ch '')'') 9) \<and>
   is_closer (lookahead (lexer_at (map ch '')'') 9)) \<and>
   only [START_BLOCK, NEWLINE] NEWLINE \<and>
   scan (push_frame (push_frame create FRAME_PAREN 0) FRAME_INDENTED 4)
       (lexer_at (map ch '')'') 9) (only [START_BLOCK, NEWLINE])
     = (True,
        push_frame (push_frame (push_frame create FRAME_PAREN 0) FRAME_INDENTED 4) FRAME_INDENTED 9,
        emit START_BLOCK (lexer_at (map ch '')'') 9)) \<and>
   pending_end_blocks
     (push_frame (push_frame (push_frame create FRAME_PAREN 0) FRAME_INDENTED 4) FRAME_INDENTED 9)
     = 0"
proof -
  let ?s = "push_frame (push_frame create FRAME_PAREN 0) FRAME_INDENTED 4"
  have wf: "scanner_wf ?s"
    by (simp add: scanner_wf_def frame_defs)
  have c: "top_run is_indented ?s = 1"
    unfolding top_run_is_indented_eval [OF wf]
    by (simp add: frame_defs count_indented_unfold)
  show ?thesis
    unfolding c by (simp add: layout_eval scanner_wf_def)
qed

section \<open>Runs of characters\<close>

lemma lexer_eq_self:
  "rest lx = r \<Longrightarrow> lx\<lparr>rest := r, column := column lx + 0, position := position lx + 0\<rparr> = lx"
  by (cases lx) simp

lemma advance_cons:
  "rest lx = c # r \<Longrightarrow> c \<noteq> ch CHR 0x0A \<Longrightarrow>
   advance lx = lx\<lparr>rest := r, column := column lx + 1, position := position lx + 1\<rparr>"
  by (cases lx) (simp add: advance_def lexer_advance_def)

text \<open>
  A loop \<open>while (P(lexer->lookahead)) advance(lexer);\<close> consumes the maximal run of
  code points that satisfy \<open>P\<close>.
\<close>

lemma advance_while_run:
  assumes "\<not> P (ch CHR 0x0A)"
  shows "advance_while P False lx
    = lx\<lparr>rest := dropWhile P (rest lx),
         column := column lx + of_nat (length (takeWhile P (rest lx))),
         position := position lx + length (takeWhile P (rest lx))\<rparr>"
proof (induction "rest lx" arbitrary: lx)
  case Nil
  then show ?case
    by (subst advance_while.simps) (simp add: eof_def lexer_eq_self)
next
  case (Cons c cs)
  show ?case
  proof (cases "P c")
    case True
    with assms have nl: "c \<noteq> ch CHR 0x0A"
      by auto
    let ?lx = "lexer_advance False lx"
    have adv: "?lx = lx\<lparr>rest := cs, column := column lx + 1, position := position lx + 1\<rparr>"
      using Cons.hyps(2) [symmetric] nl by (cases lx) (simp add: lexer_advance_def)
    then have r: "cs = rest ?lx"
      by simp
    have "advance_while P False lx = advance_while P False ?lx"
      using True Cons.hyps(2) [symmetric]
      by (subst advance_while.simps) (simp add: eof_def lookahead_def)
    also have "\<dots> = ?lx\<lparr>rest := dropWhile P (rest ?lx),
         column := column ?lx + of_nat (length (takeWhile P (rest ?lx))),
         position := position ?lx + length (takeWhile P (rest ?lx))\<rparr>"
      using r by (rule Cons.hyps(1))
    finally show ?thesis
      using True Cons.hyps(2) [symmetric] by (simp add: adv add.assoc)
  next
    case False
    then show ?thesis
      using Cons.hyps(2) [symmetric]
      by (subst advance_while.simps) (simp add: eof_def lookahead_def lexer_eq_self)
  qed
qed

lemma is_id_char_not_newline: "is_id_char c \<Longrightarrow> c \<noteq> ch CHR 0x0A"
  by (auto simp: char_class_defs)

text \<open>
  The loop over the identifier characters consumes the whole run when the run fits into
  the 63 places of the buffer.
\<close>

lemma consume_id_chars_fits:
  assumes "length word + length (takeWhile is_id_char (rest lx)) \<le> 63"
  shows "consume_id_chars word lx
    = (word @ takeWhile is_id_char (rest lx),
       lx\<lparr>rest := dropWhile is_id_char (rest lx),
          column := column lx + of_nat (length (takeWhile is_id_char (rest lx))),
          position := position lx + length (takeWhile is_id_char (rest lx))\<rparr>)"
  using assms
proof (induction "rest lx" arbitrary: word lx)
  case Nil
  then show ?case
    by (subst consume_id_chars.simps)
      (simp add: lookahead_def lexer_eq_self is_id_char_def is_alnum_def is_upper_def
        is_lower_def is_digit_def)
next
  case (Cons c cs)
  show ?case
  proof (cases "is_id_char c")
    case True
    then have nl: "c \<noteq> ch CHR 0x0A"
      by (rule is_id_char_not_newline)
    let ?lx = "advance lx"
    have adv: "?lx = lx\<lparr>rest := cs, column := column lx + 1, position := position lx + 1\<rparr>"
      using Cons.hyps(2) [symmetric] nl by (cases lx) (simp add: advance_def lexer_advance_def)
    then have r: "cs = rest ?lx"
      by simp
    have fits: "length word < 63"
        "length (word @ [c]) + length (takeWhile is_id_char (rest ?lx)) \<le> 63"
      using Cons.prems True Cons.hyps(2) [symmetric] r by simp_all
    have "consume_id_chars word lx = consume_id_chars (word @ [c]) ?lx"
      using True fits(1) Cons.hyps(2) [symmetric]
      by (subst consume_id_chars.simps) (simp add: lookahead_def)
    also note Cons.hyps(1) [OF r fits(2)]
    finally show ?thesis
      using True Cons.hyps(2) [symmetric] by (simp add: adv add.assoc)
  next
    case False
    then show ?thesis
      using Cons.hyps(2) [symmetric]
      by (subst consume_id_chars.simps) (simp add: lookahead_def lexer_eq_self)
  qed
qed

lemma scan_token_reaches_plain:
  assumes "rest lx = c # r"
    and "c \<notin> ch ` {CHR ''#'', CHR 0x22, CHR 0x60, CHR 0x5C, CHR ''('', CHR '')'', CHR ''['',
           CHR '']'', CHR ''{'', CHR ''}''}"
  shows "scan_token s lx valid = (case scan_plain lx valid of (b, lx') \<Rightarrow> (b, s, lx'))"
  using assms by (simp add: scan_token_def Let_def eof_def lookahead_def)

lemma scan_reaches_token:
  assumes "\<not> (0 < pending_end_blocks s \<and> valid END_BLOCK)" and "\<not> in_string s"
    and "(if in_non_indented s then layout_non_indented s lx0 valid
          else layout_indented s lx0 valid) = Fallthrough lx"
  shows "scan s lx0 valid = scan_token s lx valid"
  using assms by (auto simp: scan_def)

section \<open>Integer literals\<close>

lemma scan_token_int_literal_prefix:
  assumes "rest lx = ch CHR ''0'' # p # r" and "valid INT_LITERAL"
    and "(p = ch CHR ''x'' \<or> p = ch CHR ''X'') \<and> base = is_hex \<or>
         (p = ch CHR ''b'' \<or> p = ch CHR ''B'') \<and> base = is_bin"
  defines "nxt \<equiv> (case r of [] \<Rightarrow> 0 | c # _ \<Rightarrow> c)"
    and "run \<equiv> takeWhile (\<lambda>c. base c \<or> c = ch CHR ''_'') r"
  shows "(\<not> base nxt \<and> nxt \<noteq> ch CHR ''_'' \<longrightarrow>
            \<not> fst (scan_token s lx valid) \<and> fst (snd (scan_token s lx valid)) = s \<and>
            result_symbol (snd (snd (scan_token s lx valid))) = result_symbol lx) \<and>
         (base nxt \<or> nxt = ch CHR ''_'' \<longrightarrow>
            1 \<le> length run \<and>
            scan_token s lx valid
              = (True, s,
                 lx\<lparr>rest := dropWhile (\<lambda>c. base c \<or> c = ch CHR ''_'') r,
                    column := column lx + 2 + of_nat (length run),
                    position := position lx + 2 + length run,
                    token_end := Some (position lx + 2 + length run),
                    result_symbol := INT_LITERAL\<rparr>))"
proof -
  let ?P = "\<lambda>c. base c \<or> c = ch CHR ''_''"
  let ?lx1 = "lx\<lparr>rest := p # r, column := column lx + 1, position := position lx + 1\<rparr>"
  let ?lx2 = "lx\<lparr>rest := r, column := column lx + 2, position := position lx + 2\<rparr>"
  have a1: "advance lx = ?lx1"
    using assms(1) by (simp add: advance_cons)
  have pnl: "p \<noteq> ch CHR 0x0A"
    using assms(3) by auto
  have a2: "advance ?lx1 = ?lx2"
    using pnl by (simp add: advance_cons [where c = p and r = r])
  have la: "lookahead lx = ch CHR ''0''" "lookahead ?lx1 = p" "lookahead ?lx2 = nxt"
    using assms(1) by (simp_all add: lookahead_def nxt_def)
  have nonl: "\<not> ?P (ch CHR 0x0A)"
    using assms(3) by (auto simp: char_class_defs)
  have loop: "advance_while ?P False ?lx2
      = lx\<lparr>rest := dropWhile ?P r, column := column lx + 2 + of_nat (length run),
           position := position lx + 2 + length run\<rparr>"
    using advance_while_run [where P = ?P and lx = ?lx2, OF nonl] by (simp add: run_def)
  have d0: "is_digit (ch CHR ''0'')"
    by (simp add: is_digit_def)
  have pre: "scan_int_literal lx
      = (if p = ch CHR ''x'' \<or> p = ch CHR ''X'' then
           (if \<not> is_hex nxt \<and> nxt \<noteq> ch CHR ''_'' then (False, ?lx2)
            else (True, advance_while (\<lambda>c. is_hex c \<or> c = ch CHR ''_'') False ?lx2))
         else if p = ch CHR ''b'' \<or> p = ch CHR ''B'' then
           (if \<not> is_bin nxt \<and> nxt \<noteq> ch CHR ''_'' then (False, ?lx2)
            else (True, advance_while (\<lambda>c. is_bin c \<or> c = ch CHR ''_'') False ?lx2))
         else (True, advance_while (\<lambda>c. is_digit c \<or> c = ch CHR ''_'') False ?lx1))"
    unfolding scan_int_literal_def Let_def a1 a2 la
    using d0 by simp
  from assms(3) have sil: "scan_int_literal lx
      = (if \<not> base nxt \<and> nxt \<noteq> ch CHR ''_'' then (False, ?lx2)
         else (True, advance_while ?P False ?lx2))"
  proof (elim disjE conjE)
    assume "p = ch CHR ''x''" "base = is_hex"
    then show ?thesis by (simp add: pre)
  next
    assume "p = ch CHR ''X''" "base = is_hex"
    then show ?thesis by (simp add: pre)
  next
    assume "p = ch CHR ''b''" "base = is_bin"
    then show ?thesis by (simp add: pre)
  next
    assume "p = ch CHR ''B''" "base = is_bin"
    then show ?thesis by (simp add: pre)
  qed
  have plain: "scan_token s lx valid = (case scan_plain lx valid of (b, lx') \<Rightarrow> (b, s, lx'))"
    using assms(1) by (intro scan_token_reaches_plain) auto
  have sp: "scan_plain lx valid
      = (case scan_int_literal lx of (ok, lx1) \<Rightarrow>
           if ok then (True, emit INT_LITERAL (mark_end lx1)) else (False, lx1))"
    using la(1) assms(2) by (simp add: scan_plain_def Let_def char_class_defs)
  have run_pos: "1 \<le> length run" if "base nxt \<or> nxt = ch CHR ''_''"
  proof (cases r)
    case Nil
    with that assms(3) show ?thesis
      by (auto simp: nxt_def char_class_defs)
  next
    case (Cons c cs)
    with that show ?thesis
      by (auto simp: nxt_def run_def)
  qed
  have fin: "scan_token s lx valid
      = (if \<not> base nxt \<and> nxt \<noteq> ch CHR ''_'' then (False, s, ?lx2)
         else (True, s, emit INT_LITERAL (mark_end (advance_while ?P False ?lx2))))"
    unfolding plain sp sil by (simp only: if_distrib [of "case_prod _"] prod.case if_True if_False)
  show ?thesis
    unfolding fin loop using run_pos by (auto simp: emit_def mark_end_def)
qed

text \<open>
  C8. When a call of \<open>scan\<close> reaches the integer-literal scanner on a digit with
  \<open>INT_LITERAL\<close> valid (no pending dedent taken, not in string mode, the layout part
  fallen through with the handle \<open>lx\<close>) and the input there begins with the prefix
  \<open>0x\<close> or \<open>0b\<close> (or their capitals, which the source accepts too): if the byte after
  the prefix is neither a digit of the base nor \<open>_\<close>, the call returns \<open>false\<close>, with
  \<open>result_symbol\<close> and the scanner state untouched; if it is one, the call emits
  \<open>INT_LITERAL\<close> and consumes the maximal run of digits of the base and underscores, the
  token ending where the run ends.
\<close>

theorem int_literal_prefix_needs_digit:
  assumes "\<not> (0 < pending_end_blocks s \<and> valid END_BLOCK)" and "\<not> in_string s"
    and "(if in_non_indented s then layout_non_indented s lx0 valid
          else layout_indented s lx0 valid) = Fallthrough lx"
    and "rest lx = ch CHR ''0'' # p # r" and "valid INT_LITERAL"
    and "(p = ch CHR ''x'' \<or> p = ch CHR ''X'') \<and> base = is_hex \<or>
         (p = ch CHR ''b'' \<or> p = ch CHR ''B'') \<and> base = is_bin"
  defines "nxt \<equiv> (case r of [] \<Rightarrow> 0 | c # _ \<Rightarrow> c)"
    and "run \<equiv> takeWhile (\<lambda>c. base c \<or> c = ch CHR ''_'') r"
  shows "(\<not> base nxt \<and> nxt \<noteq> ch CHR ''_'' \<longrightarrow>
            \<not> fst (scan s lx0 valid) \<and> fst (snd (scan s lx0 valid)) = s \<and>
            result_symbol (snd (snd (scan s lx0 valid))) = result_symbol lx) \<and>
         (base nxt \<or> nxt = ch CHR ''_'' \<longrightarrow>
            1 \<le> length run \<and>
            scan s lx0 valid
              = (True, s,
                 lx\<lparr>rest := dropWhile (\<lambda>c. base c \<or> c = ch CHR ''_'') r,
                    column := column lx + 2 + of_nat (length run),
                    position := position lx + 2 + length run,
                    token_end := Some (position lx + 2 + length run),
                    result_symbol := INT_LITERAL\<rparr>))"
  unfolding nxt_def run_def
    scan_reaches_token [where s = s and valid = valid and ?lx0.0 = lx0 and lx = lx, OF assms(1,2,3)]
  using assms(4,5,6) by (rule scan_token_int_literal_prefix)

theorem int_literal_prefix_needs_digit_witness:
  "\<not> fst (scan create (lexer_at (map ch ''0xg'') 0) (only [INT_LITERAL])) \<and>
   fst (snd (scan create (lexer_at (map ch ''0xg'') 0) (only [INT_LITERAL]))) = create \<and>
   result_symbol (snd (snd (scan create (lexer_at (map ch ''0xg'') 0) (only [INT_LITERAL]))))
     = START_BLOCK \<and>
   scan create (lexer_at (map ch ''  0b1_0z'') 0) (only [INT_LITERAL])
     = (True, create,
        \<lparr>rest = map ch ''z'', column = 7, position = 7, token_start = 2, token_end = Some 7,
         result_symbol = INT_LITERAL\<rparr>)"
proof -
  let ?v = "only [INT_LITERAL]"
  let ?lx1 = "lexer_at (map ch ''0xg'') 0"
  let ?lx2 = "\<lparr>rest = map ch ''0b1_0z'', column = 2, position = 2, token_start = 2,
      token_end = None, result_symbol = START_BLOCK\<rparr>"
  have v: "?v INT_LITERAL" and np: "\<not> (0 < pending_end_blocks create \<and> ?v END_BLOCK)"
    and ns: "\<not> in_string create"
    by (simp_all add: only_def create_def)
  have l1: "(if in_non_indented create then layout_non_indented create ?lx1 ?v
      else layout_indented create ?lx1 ?v) = Fallthrough ?lx1"
    by (simp add: more_eval)
  have l2: "(if in_non_indented create
      then layout_non_indented create (lexer_at (map ch ''  0b1_0z'') 0) ?v
      else layout_indented create (lexer_at (map ch ''  0b1_0z'') 0) ?v) = Fallthrough ?lx2"
    by (simp add: more_eval)
  have r1: "rest ?lx1 = ch CHR ''0'' # ch CHR ''x'' # map ch ''g''"
    and r2: "rest ?lx2 = ch CHR ''0'' # ch CHR ''b'' # map ch ''1_0z''"
    by (simp_all add: lexer_at_def)
  have b1: "(ch CHR ''x'' = ch CHR ''x'' \<or> ch CHR ''x'' = ch CHR ''X'') \<and> is_hex = is_hex \<or>
      (ch CHR ''x'' = ch CHR ''b'' \<or> ch CHR ''x'' = ch CHR ''B'') \<and> is_hex = is_bin"
    by simp
  have b2: "(ch CHR ''b'' = ch CHR ''x'' \<or> ch CHR ''b'' = ch CHR ''X'') \<and> is_bin = is_hex \<or>
      (ch CHR ''b'' = ch CHR ''b'' \<or> ch CHR ''b'' = ch CHR ''B'') \<and> is_bin = is_bin"
    by simp
  from int_literal_prefix_needs_digit
      [where s = create and valid = ?v and lx = ?lx1, OF np ns l1 r1 v b1]
    int_literal_prefix_needs_digit
      [where s = create and valid = ?v and lx = ?lx2, OF np ns l2 r2 v b2]
  show ?thesis
    by (simp add: char_class_defs lexer_at_def)
qed

section \<open>Identifiers and labels longer than the buffer\<close>

text \<open>
  C7. The claim: an identifier longer than 63 bytes is recognized by consuming all of its
  bytes, the emitted \<open>UPPER_ID\<close> or \<open>LOWER_ID\<close> extending over the whole run of
  identifier characters, and only the buffer for the keyword comparison is clamped. The
  code: the loops of \<open>scan_lower_id_or_keyword\<close> and \<open>scan_upper_id\<close> stop at
  \<open>len = 63\<close>, so on 64 letters the token covers 63 of them and the last one is left
  for the next call; the branch of \<open>scan\<close> for an identifier that begins with \<open>_\<close> has
  no such bound and consumes all 65 characters.
\<close>

theorem long_identifier_split:
  "scan create (lexer_at (map ch ''aaaaaaaaaaaaaaaaaaaaaaaaaaaaaaaaaaaaaaaaaaaaaaaaaaaaaaaaaaaaaaaa'') 0) (only [LOWER_ID])
     = (True, create,
        \<lparr>rest = map ch ''a'', column = 63, position = 63, token_start = 0, token_end = Some 63,
         result_symbol = LOWER_ID\<rparr>) \<and>
   scan create (lexer_at (map ch ''AAAAAAAAAAAAAAAAAAAAAAAAAAAAAAAAAAAAAAAAAAAAAAAAAAAAAAAAAAAAAAAA'') 0) (only [UPPER_ID])
     = (True, create,
        \<lparr>rest = map ch ''A'', column = 63, position = 63, token_start = 0, token_end = Some 63,
         result_symbol = UPPER_ID\<rparr>) \<and>
   scan create (lexer_at (map ch ''_aaaaaaaaaaaaaaaaaaaaaaaaaaaaaaaaaaaaaaaaaaaaaaaaaaaaaaaaaaaaaaaa'') 0) (only [LOWER_ID])
     = (True, create,
        \<lparr>rest = [], column = 65, position = 65, token_start = 0, token_end = Some 65,
         result_symbol = LOWER_ID\<rparr>)"
  by (simp add: more_eval)

section \<open>Labels and character literals\<close>

text \<open>
  For an identifier body of at most 63 bytes the rule is the one of the specification:
  after the opening quote and a lowercase letter with \<open>LABEL\<close> valid, the call consumes
  the whole body; it emits \<open>CHAR_LITERAL\<close>, consuming the closing quote as well,
  exactly when a quote follows, the body has length 1 and \<open>CHAR_LITERAL\<close> is valid, and
  in every other case \<open>LABEL\<close>, the token ending after the body.
\<close>

lemma label_or_char_literal_short_body:
  assumes "rest lx = ch CHR 0x27 # c # r" and "is_lower c" and "valid LABEL"
    and "length (takeWhile is_id_char (c # r)) \<le> 63"
  defines "body \<equiv> takeWhile is_id_char (c # r)"
    and "after \<equiv> dropWhile is_id_char (c # r)"
  shows "scan_token s lx valid
    = (if (\<exists>t. after = ch CHR 0x27 # t) \<and> length body = 1 \<and> valid CHAR_LITERAL
       then (True, s,
             lx\<lparr>rest := tl after, column := column lx + 3, position := position lx + 3,
                result_symbol := CHAR_LITERAL\<rparr>)
       else (True, s,
             lx\<lparr>rest := after, column := column lx + 1 + of_nat (length body),
                position := position lx + 1 + length body,
                token_end := Some (position lx + 1 + length body),
                result_symbol := LABEL\<rparr>))"
proof -
  let ?lx1 = "lx\<lparr>rest := c # r, column := column lx + 1, position := position lx + 1\<rparr>"
  let ?lx2 = "lx\<lparr>rest := r, column := column lx + 2, position := position lx + 2\<rparr>"
  let ?n = "length (takeWhile is_id_char r)"
  let ?lx3 = "lx\<lparr>rest := dropWhile is_id_char r, column := column lx + 2 + of_nat ?n,
      position := position lx + 2 + ?n\<rparr>"
  have idc: "is_id_char c"
    using assms(2) by (simp add: is_id_char_def is_alnum_def)
  have cnl: "c \<noteq> ch CHR 0x0A"
    using idc by (rule is_id_char_not_newline)
  have a1: "advance lx = ?lx1"
    using assms(1) by (simp add: advance_cons)
  have a2: "advance ?lx1 = ?lx2"
    using cnl by (simp add: advance_cons [where c = c and r = r])
  have body: "body = c # takeWhile is_id_char r" and after: "after = dropWhile is_id_char r"
    using idc by (simp_all add: body_def after_def)
  have fits: "length [c] + length (takeWhile is_id_char (rest ?lx2)) \<le> 63"
    using assms(4) idc by simp
  have loop: "consume_id_chars [c] ?lx2 = (body, ?lx3)"
    using consume_id_chars_fits [OF fits] by (simp add: body)
  have plain: "scan_token s lx valid = (case scan_plain lx valid of (b, lx') \<Rightarrow> (b, s, lx'))"
    using assms(1) by (intro scan_token_reaches_plain) auto
  have sp: "scan_plain lx valid = scan_quote lx valid"
    using assms(1) by (simp add: scan_plain_def Let_def lookahead_def)
  have la1: "lookahead ?lx1 = c"
    by (simp add: lookahead_def)
  have sq: "scan_quote lx valid
      = (if lookahead ?lx3 = ch CHR 0x27 \<and> length body = 1 \<and> valid CHAR_LITERAL
         then (True, emit CHAR_LITERAL (advance ?lx3))
         else (True, emit LABEL (mark_end ?lx3)))"
    unfolding scan_quote_def Let_def a1 la1 a2 loop using assms(2,3) by simp
  have q: "lookahead ?lx3 = ch CHR 0x27 \<longleftrightarrow> (\<exists>t. after = ch CHR 0x27 # t)"
  proof -
    have "lookahead ?lx3 = (case after of [] \<Rightarrow> 0 | x # _ \<Rightarrow> x)"
      by (simp add: lookahead_def after)
    then show ?thesis
      by (cases after) auto
  qed
  have one: "?n = 0" if "length body = 1"
    using that by (simp add: body)
  have adv3: "advance ?lx3 = lx\<lparr>rest := tl after, column := column lx + 3,
      position := position lx + 3\<rparr>"
    if "\<exists>t. after = ch CHR 0x27 # t" "length body = 1"
  proof -
    from that(1) obtain t where t: "dropWhile is_id_char r = ch CHR 0x27 # t"
      by (auto simp: after)
    have "advance ?lx3 = ?lx3\<lparr>rest := t, column := column ?lx3 + 1, position := position ?lx3 + 1\<rparr>"
      by (rule advance_cons [where c = "ch CHR 0x27"]) (simp_all add: t)
    then show ?thesis
      using one [OF that(2)] t by (simp add: after)
  qed
  show ?thesis
    unfolding plain sp sq q
    using adv3 by (auto simp: emit_def mark_end_def body after add.assoc)
qed

text \<open>
  C6. The claim: after an opening quote and a lowercase letter with \<open>LABEL\<close> valid, the
  scanner consumes the identifier body and emits \<open>CHAR_LITERAL\<close> exactly when a quote
  follows, the body has length 1 and \<open>CHAR_LITERAL\<close> is valid, and \<open>LABEL\<close> covering the
  opening quote and the body in every other case. The code: the loop over the body stops
  at \<open>len = 63\<close>, as those of C7 do, so on a body of 64 letters the \<open>LABEL\<close> covers the
  quote and 63 of them and the last letter is left for the next call.
\<close>

theorem long_label_split:
  "scan create (lexer_at (ch CHR 0x27 # map ch ''aaaaaaaaaaaaaaaaaaaaaaaaaaaaaaaaaaaaaaaaaaaaaaaaaaaaaaaaaaaaaaaa'') 0) (only [LABEL, CHAR_LITERAL])
     = (True, create,
        \<lparr>rest = map ch ''a'', column = 64, position = 64, token_start = 0, token_end = Some 64,
         result_symbol = LABEL\<rparr>)"
  by (simp add: more_eval)

section \<open>Examples from the specification\<close>

text \<open>
  Four of the scenarios of section 8 of the specification, evaluated in the model:
  \<open>'a'\<close> is a \<open>CHAR_LITERAL\<close>; \<open>'loop'x\<close> begins with the \<open>LABEL\<close> \<open>'loop\<close>; nested
  block comments are one \<open>BLOCK_COMMENT\<close>; a continuation line gets no \<open>NEWLINE\<close>.
\<close>

lemma example_char_literal:
  "scan create (lexer_at (ch CHR 0x27 # ch CHR ''a'' # [ch CHR 0x27]) 0) (only [LABEL, CHAR_LITERAL])
     = (True, create,
        \<lparr>rest = [], column = 3, position = 3, token_start = 0, token_end = None,
         result_symbol = CHAR_LITERAL\<rparr>)"
  by (simp add: more_eval)

lemma example_label:
  "scan create (lexer_at (ch CHR 0x27 # map ch ''loop'' @ ch CHR 0x27 # map ch ''x'') 0)
       (only [LABEL, CHAR_LITERAL])
     = (True, create,
        \<lparr>rest = ch CHR 0x27 # map ch ''x'', column = 5, position = 5, token_start = 0,
         token_end = Some 5, result_symbol = LABEL\<rparr>)"
  by (simp add: more_eval)

lemma example_nested_block_comment:
  "scan create (lexer_at (map ch ''#| outer #| inner |# still outer |#'') 0)
       (only [BLOCK_COMMENT, LINE_COMMENT])
     = (True, create,
        \<lparr>rest = [], column = 35, position = 35, token_start = 0, token_end = Some 35,
         result_symbol = BLOCK_COMMENT\<rparr>)"
  by (simp add: more_eval)

lemma example_continuation_line:
  "scan create (lexer_at (ch CHR 0x0A # map ch ''    + b'') 1) (only [NEWLINE, PLUS])
     = (True, create,
        \<lparr>rest = map ch '' b'', column = 5, position = 6, token_start = 5, token_end = None,
         result_symbol = PLUS\<rparr>)"
  by (simp add: more_eval)

end
